theory Spec2Isabelle
  imports Main "HOL-Library.Word" "HOL-Library.Signed_Division"
begin

unbundle bit_operations_syntax

section \<open>QuantumProtection: the 2048-bit sponge state\<close>

type_synonym u8 = "8 word"
type_synonym u64 = "64 word"

text \<open>
  \<^verbatim>\<open>struct QFState { uint64_t state[32]; uint64_t absorbedBytes; }\<close>.
  The array is a list; every state the program builds has 32 entries
  (\<open>qsOK\<close> below).
\<close>

record QFState =
  state :: "u64 list"
  absorbedBytes :: u64

definition STATE_WORDS :: nat where
  "STATE_WORDS = 32"

definition qsOK :: "QFState \<Rightarrow> bool" where
  "qsOK qs = (length (state qs) = STATE_WORDS)"

text \<open>The table \<^verbatim>\<open>ROUND_CONSTANTS[24]\<close> of QuantumProtection.cpp, in source order.\<close>

definition ROUND_CONSTANTS :: "u64 list" where
  "ROUND_CONSTANTS =
    [0x0000000000000001, 0x0000000000008082,
     0x800000000000808a, 0x8000000080008000,
     0x000000000000808b, 0x0000000080000001,
     0x8000000080008081, 0x8000000000008009,
     0x000000000000008a, 0x0000000000000088,
     0x0000000080008009, 0x000000008000000a,
     0x000000008000808b, 0x800000000000008b,
     0x8000000000008089, 0x8000000000008003,
     0x8000000000008002, 0x8000000000000080,
     0x000000000000800a, 0x800000008000000a,
     0x8000000080008081, 0x8000000000008080,
     0x0000000080000001, 0x8000000080008008]"

text \<open>
  \<^verbatim>\<open>rotl64(x, n) = (x << n) | (x >> (64 - n))\<close>.
  For \<open>n = 0\<close> the C++ expression shifts a 64-bit value by 64, which the
  language leaves undefined. \<open>drop_bit 64\<close> on a 64-bit word is 0, and a
  machine that masks the shift count to six bits yields \<open>x >> 0 = x\<close>; OR-ed
  with \<open>x << 0 = x\<close> both readings give \<open>x\<close>, the value this model takes.
\<close>

definition rotl64 :: "u64 \<Rightarrow> nat \<Rightarrow> u64" where
  "rotl64 x n = push_bit n x OR drop_bit (64 - n) x"

text \<open>
  \<^verbatim>\<open>qfInit\<close>: memset of the whole array, four constants, counter zero.
  Every field of the argument is overwritten.
\<close>

definition qfInit :: "QFState \<Rightarrow> QFState" where
  "qfInit qs =
    (let st = replicate STATE_WORDS (0::u64);
         st = st[0 := 0x6A09E667F3BCC908];
         st = st[1 := 0xBB67AE8584CAA73B];
         st = st[2 := 0x3C6EF372FE94F82B];
         st = st[3 := 0xA54FF53A5F1D36F1]
     in qs\<lparr>state := st, absorbedBytes := 0\<rparr>)"

subsection \<open>qfPermutation\<close>

text \<open>
  The two rotation counts of the pair loop,
  \<^verbatim>\<open>(i + round) % 63\<close> and \<^verbatim>\<open>((i * 3) + round) % 59\<close>.
  Both operands are non-negative \<^verbatim>\<open>int\<close>s below 100, so \<open>nat\<close> is exact.
\<close>

definition pairShiftA :: "nat \<Rightarrow> nat \<Rightarrow> nat" where
  "pairShiftA i rnd = (i + rnd) mod 63"

definition pairShiftB :: "nat \<Rightarrow> nat \<Rightarrow> nat" where
  "pairShiftB i rnd = ((i * 3) + rnd) mod 59"

text \<open>\<^verbatim>\<open>for (int i = 0; i < 32; i += 2) { ... }\<close>, step 2 of a round.\<close>

function pairLoop :: "nat \<Rightarrow> nat \<Rightarrow> u64 list \<Rightarrow> u64 list" where
  "pairLoop i rnd st =
    (if i < 32 then
       (let a = st ! i;
            b = st ! (i + 1);
            a = rotl64 (a XOR b) (pairShiftA i rnd);
            b = rotl64 (b XOR a) (pairShiftB i rnd);
            st = st[i := a];
            st = st[i + 1 := b]
        in pairLoop (i + 2) rnd st)
     else st)"
  by pat_completeness auto
termination
  by (relation "measure (\<lambda>(i, rnd, st). 32 - i)") auto

declare pairLoop.simps [simp del]

text \<open>\<^verbatim>\<open>for (int i = 0; i < 32; i++) { ... }\<close>, step 3 of a round.\<close>

function crossLoop :: "nat \<Rightarrow> nat \<Rightarrow> u64 list \<Rightarrow> u64 list" where
  "crossLoop i rnd st =
    (if i < 32 then
       crossLoop (i + 1) rnd
         (st[i := st ! i XOR rotl64 (st ! ((i + 5) mod 32)) (((i + rnd) mod 7) + 1)])
     else st)"
  by pat_completeness auto
termination
  by (relation "measure (\<lambda>(i, rnd, st). 32 - i)") auto

declare crossLoop.simps [simp del]

text \<open>\<^verbatim>\<open>for (int round = 0; round < 24; round++) { ... }\<close>.\<close>

function roundLoop :: "nat \<Rightarrow> u64 list \<Rightarrow> u64 list" where
  "roundLoop rnd st =
    (if rnd < 24 then
       (let st = st[rnd mod STATE_WORDS :=
                      st ! (rnd mod STATE_WORDS) XOR ROUND_CONSTANTS ! rnd];
            st = pairLoop 0 rnd st;
            st = crossLoop 0 rnd st
        in roundLoop (rnd + 1) st)
     else st)"
  by pat_completeness auto
termination
  by (relation "measure (\<lambda>(rnd, st). 24 - rnd)") auto

declare roundLoop.simps [simp del]

definition qfPermutation :: "QFState \<Rightarrow> QFState" where
  "qfPermutation qs = qs\<lparr>state := roundLoop 0 (state qs)\<rparr>"

subsection \<open>Byte view of the state\<close>

text \<open>
  \<^verbatim>\<open>reinterpret_cast<uint8_t*>(qs.state)[i]\<close> is byte \<open>i mod 8\<close> of word
  \<open>i div 8\<close>. Which eight bits of the word that byte holds is fixed by the
  byte order of the build; it is a parameter of every function that uses
  the byte view.
\<close>

datatype endian = LittleEndian | BigEndian

definition byteShift :: "endian \<Rightarrow> nat \<Rightarrow> nat" where
  "byteShift e i = 8 * (case e of LittleEndian \<Rightarrow> i mod 8 | BigEndian \<Rightarrow> 7 - i mod 8)"

text \<open>\<^verbatim>\<open>reinterpret_cast<uint8_t*>(qs.state)[i] ^= d\<close>\<close>

definition xorByte :: "endian \<Rightarrow> u64 list \<Rightarrow> nat \<Rightarrow> u8 \<Rightarrow> u64 list" where
  "xorByte e st i d =
    st[i div 8 := st ! (i div 8) XOR push_bit (byteShift e i) (ucast d)]"

text \<open>The bytes of one word and of the whole array, in address order.\<close>

definition wordBytes :: "endian \<Rightarrow> u64 \<Rightarrow> u8 list" where
  "wordBytes e w = map (\<lambda>j. ucast (drop_bit (byteShift e j) w)) [0..<8]"

definition stateBytes :: "endian \<Rightarrow> u64 list \<Rightarrow> u8 list" where
  "stateBytes e st = concat (map (wordBytes e) st)"

subsection \<open>qfAbsorb\<close>

definition rateBytes :: nat where
  "rateBytes = 128"

text \<open>\<^verbatim>\<open>for (size_t i = 0; i < toXor; i++) bytes[i] ^= data[i];\<close>\<close>

function xorLoop :: "endian \<Rightarrow> nat \<Rightarrow> nat \<Rightarrow> u8 list \<Rightarrow> u64 list \<Rightarrow> u64 list" where
  "xorLoop e i toXor data st =
    (if i < toXor then xorLoop e (i + 1) toXor data (xorByte e st i (data ! i))
     else st)"
  by pat_completeness auto
termination
  by (relation "measure (\<lambda>(e, i, toXor, data, st). toXor - i)") auto

declare xorLoop.simps [simp del]

text \<open>
  The \<^verbatim>\<open>while (len > 0)\<close> loop of \<^verbatim>\<open>qfAbsorb\<close>. \<open>data\<close> is the input
  from the current position of the pointer on (\<^verbatim>\<open>data += toXor\<close> is
  \<open>drop\<close>). The loop state is the hash state together with a count of the
  calls of \<^verbatim>\<open>qfPermutation\<close> made so far; the count is instrumentation
  and is not read by the loop.
\<close>

function absorbLoop :: "endian \<Rightarrow> u8 list \<Rightarrow> nat \<Rightarrow> QFState \<times> nat \<Rightarrow> QFState \<times> nat" where
  "absorbLoop e data len (qs, calls) =
    (if len > 0 then
       (let toXor = (if len < rateBytes then len else rateBytes);
            qs = qs\<lparr>state := xorLoop e 0 toXor data (state qs)\<rparr>;
            data = drop toXor data;
            len = len - toXor
        in if toXor = rateBytes
           then absorbLoop e data len (qfPermutation qs, calls + 1)
           else (qs, calls))
     else (qs, calls))"
  by pat_completeness auto
termination
  by (relation "measure (\<lambda>(e, data, len, s). len)") (auto simp: rateBytes_def)

declare absorbLoop.simps [simp del]

text \<open>
  \<^verbatim>\<open>qfAbsorb(qs, data, len)\<close>. \<^verbatim>\<open>len\<close> is a \<^verbatim>\<open>size_t\<close>; the 64-bit
  counter is advanced by it modulo \<open>2^64\<close>.
\<close>

definition qfAbsorbRun :: "endian \<Rightarrow> QFState \<Rightarrow> u8 list \<Rightarrow> nat \<Rightarrow> QFState \<times> nat" where
  "qfAbsorbRun e qs data len =
    absorbLoop e data len (qs\<lparr>absorbedBytes := absorbedBytes qs + of_nat len\<rparr>, 0)"

definition qfAbsorb :: "endian \<Rightarrow> QFState \<Rightarrow> u8 list \<Rightarrow> nat \<Rightarrow> QFState" where
  "qfAbsorb e qs data len = fst (qfAbsorbRun e qs data len)"

definition qfAbsorbPermutations :: "endian \<Rightarrow> QFState \<Rightarrow> u8 list \<Rightarrow> nat \<Rightarrow> nat" where
  "qfAbsorbPermutations e qs data len = snd (qfAbsorbRun e qs data len)"

subsection \<open>qfSqueeze\<close>

text \<open>
  The \<^verbatim>\<open>while (outLen > 0)\<close> loop. \<open>out\<close> is the part of the output
  buffer written so far, so \<^verbatim>\<open>offset\<close> is its length and
  \<^verbatim>\<open>memcpy(out + offset, state, toCopy)\<close> appends. The loop state carries
  the private copy of the hash state and the count of permutation calls.
\<close>

function squeezeLoop :: "endian \<Rightarrow> nat \<Rightarrow> u8 list \<Rightarrow> QFState \<times> nat \<Rightarrow> u8 list \<times> QFState \<times> nat" where
  "squeezeLoop e outLen out (qs, calls) =
    (if outLen > 0 then
       (let toCopy = (if outLen < rateBytes then outLen else rateBytes);
            out = out @ take toCopy (stateBytes e (state qs));
            outLen = outLen - toCopy
        in if outLen > 0
           then squeezeLoop e outLen out (qfPermutation qs, calls + 1)
           else squeezeLoop e outLen out (qs, calls))
     else (out, qs, calls))"
  by pat_completeness auto
termination
  by (relation "measure (\<lambda>(e, outLen, out, s). outLen)") (auto simp: rateBytes_def)

declare squeezeLoop.simps [simp del]

text \<open>
  \<^verbatim>\<open>qfSqueeze(const QFState& qsConst, out, outLen)\<close>: works on the copy
  \<^verbatim>\<open>QFState qs = qsConst\<close>, permutes it once, then runs the loop.
  \<open>qfSqueezeRun\<close> gives the bytes written, the final private copy and the
  number of permutation calls; \<open>qfSqueeze\<close> gives what the caller sees: its
  own state after the call and the bytes written.
\<close>

definition qfSqueezeRun :: "endian \<Rightarrow> QFState \<Rightarrow> nat \<Rightarrow> u8 list \<times> QFState \<times> nat" where
  "qfSqueezeRun e qsConst outLen =
    (let qs = qsConst;
         qs = qfPermutation qs
     in squeezeLoop e outLen [] (qs, 1))"

definition qfSqueeze :: "endian \<Rightarrow> QFState \<Rightarrow> nat \<Rightarrow> QFState \<times> u8 list" where
  "qfSqueeze e qsConst outLen = (qsConst, fst (qfSqueezeRun e qsConst outLen))"

definition qfSqueezePermutations :: "endian \<Rightarrow> QFState \<Rightarrow> nat \<Rightarrow> nat" where
  "qfSqueezePermutations e qsConst outLen = snd (snd (qfSqueezeRun e qsConst outLen))"

section \<open>SelfHeal: snapshots, detection and recovery\<close>

text \<open>
  \<^verbatim>\<open>struct StateSnapshot\<close>. Its array \<^verbatim>\<open>state\<close> is the field \<open>snapState\<close>
  here, since \<open>state\<close> already names the field of \<open>QFState\<close>. Both arrays
  have \<^verbatim>\<open>SNAP_WORDS = 32\<close> entries.
\<close>

record StateSnapshot =
  snapState :: "u64 list"
  totalLen :: u64
  partialChecks :: "u64 list"
  fullChecksum :: u64
  ephemeralKey :: u64

definition SNAP_WORDS :: nat where
  "SNAP_WORDS = 32"

definition snapOK :: "StateSnapshot \<Rightarrow> bool" where
  "snapOK snap =
    (length (snapState snap) = SNAP_WORDS \<and> length (partialChecks snap) = SNAP_WORDS)"

text \<open>
  \<^verbatim>\<open>struct SelfHealContext\<close>. The four counters are C++ \<^verbatim>\<open>int\<close>s: 32-bit
  words here, read as two's complement by \<open>sint\<close>. \<^verbatim>\<open>++\<close> is \<open>+ 1\<close> on the
  word; at \<open>INT_MAX\<close> it wraps, where the C++ increment overflows, so a
  statement about the value of an incremented counter assumes the counter
  below \<open>INT_MAX\<close>. \<^verbatim>\<open>currentIndex\<close> is an \<^verbatim>\<open>int\<close> as well; it is kept
  as an integer, and every statement that depends on it assumes \<open>ctxOK\<close>,
  under which all index arithmetic stays between 0 and 9.
\<close>

type_synonym i32 = "32 word"

definition INT_MAX :: int where
  "INT_MAX = 2147483647"

record SelfHealContext =
  snapshots :: "StateSnapshot list"
  currentIndex :: int
  shadowCopy :: StateSnapshot
  partialRepairs :: i32
  fullReverts :: i32
  totalReinits :: i32
  consecutiveAnomalies :: i32

definition MAX_SNAPSHOTS :: nat where
  "MAX_SNAPSHOTS = 5"

text \<open>
  The shape the C++ types give a context: five ring slots, each array of
  length 32, and an index inside the ring. Outside it the C++ code indexes
  out of bounds.
\<close>

definition ctxOK :: "SelfHealContext \<Rightarrow> bool" where
  "ctxOK ctx =
    (length (snapshots ctx) = MAX_SNAPSHOTS
     \<and> list_all snapOK (snapshots ctx)
     \<and> snapOK (shadowCopy ctx)
     \<and> 0 \<le> currentIndex ctx \<and> currentIndex ctx < int MAX_SNAPSHOTS)"

subsection \<open>miniHash\<close>

definition FNV_PRIME :: u64 where
  "FNV_PRIME = 0x100000001B3"

text \<open>\<^verbatim>\<open>for (int b = 0; b < 8; b++) { ... }\<close>: the eight bytes of one word.\<close>

function byteLoop :: "nat \<Rightarrow> u64 \<Rightarrow> u64 \<Rightarrow> u64" where
  "byteLoop b val hash =
    (if b < 8 then
       (let byteVal = (ucast (val AND 0xFF) :: u8);
            hash = hash XOR ucast byteVal;
            hash = hash * FNV_PRIME;
            val = drop_bit 8 val
        in byteLoop (b + 1) val hash)
     else hash)"
  by pat_completeness auto
termination
  by (relation "measure (\<lambda>(b, val, hash). 8 - b)") auto

declare byteLoop.simps [simp del]

text \<open>\<^verbatim>\<open>for (size_t i = 0; i < count; i++) { ... }\<close>\<close>

function wordLoop :: "u64 list \<Rightarrow> nat \<Rightarrow> nat \<Rightarrow> u64 \<Rightarrow> u64" where
  "wordLoop data count i hash =
    (if i < count then wordLoop data count (i + 1) (byteLoop 0 (data ! i) hash)
     else hash)"
  by pat_completeness auto
termination
  by (relation "measure (\<lambda>(data, count, i, hash). count - i)") auto

declare wordLoop.simps [simp del]

definition miniHash :: "u64 list \<Rightarrow> nat \<Rightarrow> u64 \<Rightarrow> u64" where
  "miniHash data count key = wordLoop data count 0 (0xcbf29ce484222325 XOR key)"

subsection \<open>fillChecksums, createSnapshot, validateSnapshot\<close>

text \<open>
  The first loop of \<^verbatim>\<open>fillChecksums\<close>. \<^verbatim>\<open>&snap.state[i]\<close> is the array
  from position \<open>i\<close> on.
\<close>

function fillLoop :: "nat \<Rightarrow> StateSnapshot \<Rightarrow> StateSnapshot" where
  "fillLoop i snap =
    (if i < 8 then
       fillLoop (i + 1)
         (snap\<lparr>partialChecks := (partialChecks snap)
                  [i := miniHash (drop i (snapState snap)) 1 (ephemeralKey snap)]\<rparr>)
     else snap)"
  by pat_completeness auto
termination
  by (relation "measure (\<lambda>(i, snap). 8 - i)") auto

declare fillLoop.simps [simp del]

definition fillChecksums :: "StateSnapshot \<Rightarrow> StateSnapshot" where
  "fillChecksums snap =
    (let snap = fillLoop 0 snap;
         temp = map (\<lambda>i. snapState snap ! i) [0..<8] @ [totalLen snap]
     in snap\<lparr>fullChecksum := miniHash temp 9 (ephemeralKey snap)\<rparr>)"

text \<open>
  \<^verbatim>\<open>createSnapshot\<close>. The value \<^verbatim>\<open>gen()\<close> returns is the parameter
  \<open>ephemeral\<close>; the contents of the uninitialised local \<^verbatim>\<open>StateSnapshot snap\<close>
  are the parameter \<open>snap0\<close> (only its \<open>partialChecks\<close> entries 8..31
  survive). \<^verbatim>\<open>memcpy(snap.state, qs.state, sizeof(qs.state))\<close> copies all
  32 words.
\<close>

definition createSnapshot :: "u64 \<Rightarrow> StateSnapshot \<Rightarrow> QFState \<Rightarrow> StateSnapshot" where
  "createSnapshot ephemeral snap0 qs =
    (let snap = snap0\<lparr>snapState := state qs\<rparr>;
         snap = snap\<lparr>totalLen := absorbedBytes qs\<rparr>;
         snap = snap\<lparr>ephemeralKey := ephemeral\<rparr>
     in fillChecksums snap)"

text \<open>Step A of \<^verbatim>\<open>validateSnapshot\<close>: \<open>False\<close> at the first mismatch.\<close>

function validateLoop :: "nat \<Rightarrow> QFState \<Rightarrow> StateSnapshot \<Rightarrow> bool" where
  "validateLoop i qs snap =
    (if i < 8 then
       (let wordHash = miniHash (drop i (state qs)) 1 (ephemeralKey snap)
        in if wordHash \<noteq> partialChecks snap ! i then False
           else validateLoop (i + 1) qs snap)
     else True)"
  by pat_completeness auto
termination
  by (relation "measure (\<lambda>(i, qs, snap). 8 - i)") auto

declare validateLoop.simps [simp del]

definition validateSnapshot :: "QFState \<Rightarrow> StateSnapshot \<Rightarrow> bool" where
  "validateSnapshot qs snap =
    (if \<not> validateLoop 0 qs snap then False
     else (let temp = map (\<lambda>i. state qs ! i) [0..<8] @ [absorbedBytes qs];
               fullHash = miniHash temp 9 (ephemeralKey snap)
           in fullHash = fullChecksum snap))"

subsection \<open>selfHealInit, selfHealSaveSnapshot, selfHealDetect\<close>

text \<open>The loop of \<^verbatim>\<open>selfHealInit\<close> over ring slots 1..4.\<close>

function initLoop :: "nat \<Rightarrow> SelfHealContext \<Rightarrow> SelfHealContext" where
  "initLoop i ctx =
    (if i < MAX_SNAPSHOTS then
       initLoop (i + 1)
         (ctx\<lparr>snapshots := (snapshots ctx)
                 [i := (snapshots ctx ! i)
                         \<lparr>partialChecks := replicate SNAP_WORDS 0,
                          fullChecksum := 0,
                          ephemeralKey := 0\<rparr>]\<rparr>)
     else ctx)"
  by pat_completeness auto
termination
  by (relation "measure (\<lambda>(i, ctx). MAX_SNAPSHOTS - i)") auto

declare initLoop.simps [simp del]

text \<open>
  \<^verbatim>\<open>selfHealInit(ctx, qs)\<close> writes into an existing context object: the
  fields it does not assign (\<^verbatim>\<open>state\<close> and \<^verbatim>\<open>totalLen\<close> of slots 1..4)
  keep what \<open>ctx\<close> held.
\<close>

definition selfHealInit :: "u64 \<Rightarrow> StateSnapshot \<Rightarrow> SelfHealContext \<Rightarrow> QFState \<Rightarrow> SelfHealContext" where
  "selfHealInit ephemeral snap0 ctx qs =
    (let ctx = ctx\<lparr>partialRepairs := 0\<rparr>;
         ctx = ctx\<lparr>fullReverts := 0\<rparr>;
         ctx = ctx\<lparr>totalReinits := 0\<rparr>;
         ctx = ctx\<lparr>consecutiveAnomalies := 0\<rparr>;
         initialSnap = createSnapshot ephemeral snap0 qs;
         ctx = ctx\<lparr>currentIndex := 0\<rparr>;
         ctx = ctx\<lparr>snapshots := (snapshots ctx)[0 := initialSnap]\<rparr>;
         ctx = ctx\<lparr>shadowCopy := initialSnap\<rparr>
     in initLoop 1 ctx)"

text \<open>
  \<^verbatim>\<open>selfHealSaveSnapshot\<close>. \<^verbatim>\<open>%\<close> on \<^verbatim>\<open>int\<close> truncates towards zero
  (\<open>smod\<close>).
\<close>

definition selfHealSaveSnapshot :: "u64 \<Rightarrow> StateSnapshot \<Rightarrow> SelfHealContext \<Rightarrow> QFState \<Rightarrow> SelfHealContext" where
  "selfHealSaveSnapshot ephemeral snap0 ctx qs =
    (let newSnap = createSnapshot ephemeral snap0 qs;
         ctx = ctx\<lparr>currentIndex := (currentIndex ctx + 1) smod int MAX_SNAPSHOTS\<rparr>;
         ctx = ctx\<lparr>snapshots := (snapshots ctx)[nat (currentIndex ctx) := newSnap]\<rparr>
     in ctx\<lparr>shadowCopy := newSnap\<rparr>)"

definition MAX_LEN :: u64 where
  "MAX_LEN = push_bit 48 1"

text \<open>The ring scan of \<^verbatim>\<open>selfHealDetect\<close>: \<open>True\<close> when some slot validates.\<close>

function detectLoop :: "nat \<Rightarrow> QFState \<Rightarrow> SelfHealContext \<Rightarrow> bool" where
  "detectLoop i qs ctx =
    (if i < MAX_SNAPSHOTS then
       (if validateSnapshot qs (snapshots ctx ! i) then True
        else detectLoop (i + 1) qs ctx)
     else False)"
  by pat_completeness auto
termination
  by (relation "measure (\<lambda>(i, qs, ctx). MAX_SNAPSHOTS - i)") auto

declare detectLoop.simps [simp del]

text \<open>\<^verbatim>\<open>selfHealDetect\<close>: \<open>True\<close> means anomalous.\<close>

definition selfHealDetect :: "QFState \<Rightarrow> SelfHealContext \<Rightarrow> bool" where
  "selfHealDetect qs ctx =
    (if validateSnapshot qs (shadowCopy ctx) then False
     else if absorbedBytes qs > MAX_LEN then True
     else if detectLoop 0 qs ctx then False
     else True)"

subsection \<open>selfHealAttemptRecovery\<close>

text \<open>Part A: the loop that reverts suspect words from the shadow copy.\<close>

function healLoop :: "nat \<Rightarrow> SelfHealContext \<Rightarrow> QFState \<times> int \<Rightarrow> QFState \<times> int" where
  "healLoop i ctx (qs, wordsFixed) =
    (if i < 8 then
       (let wordHash = miniHash (drop i (state qs)) 1 (ephemeralKey (shadowCopy ctx))
        in if wordHash \<noteq> partialChecks (shadowCopy ctx) ! i
           then healLoop (i + 1) ctx
                  (qs\<lparr>state := (state qs)[i := snapState (shadowCopy ctx) ! i]\<rparr>,
                   wordsFixed + 1)
           else healLoop (i + 1) ctx (qs, wordsFixed))
     else (qs, wordsFixed))"
  by pat_completeness auto
termination
  by (relation "measure (\<lambda>(i, ctx, s). 8 - i)") auto

declare healLoop.simps [simp del]

text \<open>
  \<^verbatim>\<open>*(reinterpret_cast<const QFState*>(&snap.state))\<close>: a snapshot starts
  with the 32 words followed by \<^verbatim>\<open>totalLen\<close>, which is the layout of a
  \<open>QFState\<close>; read as one, its counter is \<open>totalLen\<close>.
\<close>

definition snapAsQFState :: "StateSnapshot \<Rightarrow> QFState" where
  "snapAsQFState snap = \<lparr>state = snapState snap, absorbedBytes = totalLen snap\<rparr>"

text \<open>
  Part B: the backward walk over the ring. The result is the slot the
  C++ loop reverts from and returns at, or \<open>None\<close> when the loop runs out.
\<close>

function revertScan :: "nat \<Rightarrow> SelfHealContext \<Rightarrow> nat option" where
  "revertScan i ctx =
    (if i < MAX_SNAPSHOTS then
       (let idx = (currentIndex ctx - int i + int MAX_SNAPSHOTS) smod int MAX_SNAPSHOTS;
            snap = snapshots ctx ! nat idx
        in if ephemeralKey snap = 0 then revertScan (i + 1) ctx
           else if validateSnapshot (snapAsQFState snap) snap then Some (nat idx)
           else revertScan (i + 1) ctx)
     else None)"
  by pat_completeness auto
termination
  by (relation "measure (\<lambda>(i, ctx). MAX_SNAPSHOTS - i)") auto

declare revertScan.simps [simp del]

text \<open>The body of Part B at the slot found: revert, re-snapshot, succeed.\<close>

definition fullRevert :: "u64 \<Rightarrow> StateSnapshot \<Rightarrow> QFState \<Rightarrow> SelfHealContext \<Rightarrow> nat \<Rightarrow> bool \<times> QFState \<times> SelfHealContext" where
  "fullRevert ephemeral snap0 qs ctx idx =
    (let snap = snapshots ctx ! idx;
         qs = qs\<lparr>state := snapState snap\<rparr>;
         qs = qs\<lparr>absorbedBytes := totalLen snap\<rparr>;
         ctx = ctx\<lparr>shadowCopy := snap\<rparr>;
         ctx = ctx\<lparr>fullReverts := fullReverts ctx + 1\<rparr>;
         ctx = selfHealSaveSnapshot ephemeral snap0 ctx qs;
         ctx = ctx\<lparr>consecutiveAnomalies := 0\<rparr>
     in (True, qs, ctx))"

text \<open>Part C: forced re-initialisation.\<close>

definition forceReinit :: "u64 \<Rightarrow> StateSnapshot \<Rightarrow> QFState \<Rightarrow> SelfHealContext \<Rightarrow> bool \<times> QFState \<times> SelfHealContext" where
  "forceReinit ephemeral snap0 qs ctx =
    (let qs = qfInit qs;
         ctx = selfHealInit ephemeral snap0 ctx qs;
         ctx = ctx\<lparr>totalReinits := totalReinits ctx + 1\<rparr>;
         ctx = ctx\<lparr>consecutiveAnomalies := 0\<rparr>
     in (False, qs, ctx))"

text \<open>
  \<^verbatim>\<open>selfHealAttemptRecovery(qs, ctx)\<close>: the returned flag, the state and
  the context after the call. Each path calls \<^verbatim>\<open>createSnapshot\<close> at most
  once, so one \<open>ephemeral\<close> and one \<open>snap0\<close> suffice.
\<close>

definition selfHealAttemptRecovery :: "u64 \<Rightarrow> StateSnapshot \<Rightarrow> QFState \<Rightarrow> SelfHealContext \<Rightarrow> bool \<times> QFState \<times> SelfHealContext" where
  "selfHealAttemptRecovery ephemeral snap0 qs ctx =
    (let ctx = ctx\<lparr>consecutiveAnomalies := consecutiveAnomalies ctx + 1\<rparr>;
         (qs, wordsFixed) = healLoop 0 ctx (qs, 0)
     in if wordsFixed > 0 \<and> \<not> selfHealDetect qs ctx
        then (let ctx = ctx\<lparr>partialRepairs := partialRepairs ctx + 1\<rparr>;
                  ctx = selfHealSaveSnapshot ephemeral snap0 ctx qs;
                  ctx = ctx\<lparr>consecutiveAnomalies := 0\<rparr>
              in (True, qs, ctx))
        else (case revertScan 0 ctx of
                Some idx \<Rightarrow> fullRevert ephemeral snap0 qs ctx idx
              | None \<Rightarrow> forceReinit ephemeral snap0 qs ctx))"

subsection \<open>Concrete objects used in the examples\<close>

text \<open>A snapshot and a context object whose memory is all zero.\<close>

definition zeroSnapshot :: StateSnapshot where
  "zeroSnapshot =
    \<lparr>snapState = replicate 32 0, totalLen = 0, partialChecks = replicate 32 0,
     fullChecksum = 0, ephemeralKey = 0\<rparr>"

definition zeroContext :: SelfHealContext where
  "zeroContext =
    \<lparr>snapshots = replicate 5 zeroSnapshot, currentIndex = 0, shadowCopy = zeroSnapshot,
     partialRepairs = 0, fullReverts = 0, totalReinits = 0, consecutiveAnomalies = 0\<rparr>"

text \<open>The state \<^verbatim>\<open>qfInit\<close> produces.\<close>

definition initState :: QFState where
  "initState = qfInit \<lparr>state = [], absorbedBytes = 0\<rparr>"

text \<open>
  A context whose ring has been wiped (every key 0) after two partial
  repairs, one full revert and one re-initialisation were counted.
\<close>

definition wipedContext :: SelfHealContext where
  "wipedContext = zeroContext\<lparr>partialRepairs := 2, fullReverts := 1, totalReinits := 1\<rparr>"

text \<open>
  A context initialised from \<open>initState\<close> with key 1, and a live state that
  differs from the snapshot in word 8 and in the byte counter.
\<close>

definition freshContext :: SelfHealContext where
  "freshContext = selfHealInit 1 zeroSnapshot zeroContext initState"

definition driftedState :: QFState where
  "driftedState = initState\<lparr>state := (state initState)[8 := 1], absorbedBytes := 5\<rparr>"

text \<open>
  A context initialised from \<open>initState\<close> when the generator returned 0,
  followed by a save (key 7) after one byte was absorbed.
\<close>

definition keyZeroContext :: SelfHealContext where
  "keyZeroContext =
    selfHealSaveSnapshot 7 zeroSnapshot
      (selfHealInit 0 zeroSnapshot zeroContext initState)
      (qfAbsorb LittleEndian initState [1] 1)"

section \<open>The operations as the specification words them\<close>

subsection \<open>permute\<close>

text \<open>
  The three steps of a round as the specification states them, with the
  library rotation \<open>word_rotl\<close> for \<open>rotateLeft\<close>; the rounds and the
  word indices are visited in ascending order (\<open>fold\<close> over \<open>[0..<n]\<close>).
\<close>

definition rotateLeft :: "u64 \<Rightarrow> nat \<Rightarrow> u64" where
  "rotateLeft x n = word_rotl n x"

definition injectConstant_spec :: "nat \<Rightarrow> u64 list \<Rightarrow> u64 list" where
  "injectConstant_spec r ws = ws[r mod 32 := ws ! (r mod 32) XOR ROUND_CONSTANTS ! r]"

definition pairMix_spec :: "nat \<Rightarrow> nat \<Rightarrow> u64 list \<Rightarrow> u64 list" where
  "pairMix_spec r i ws =
    (let a = rotateLeft (ws ! i XOR ws ! (i + 1)) ((i + r) mod 63);
         b = rotateLeft (ws ! (i + 1) XOR a) ((3 * i + r) mod 59)
     in ws[i := a, i + 1 := b])"

definition crossLane_spec :: "nat \<Rightarrow> nat \<Rightarrow> u64 list \<Rightarrow> u64 list" where
  "crossLane_spec r i ws =
    ws[i := ws ! i XOR rotateLeft (ws ! ((i + 5) mod 32)) (((i + r) mod 7) + 1)]"

definition round_spec :: "nat \<Rightarrow> u64 list \<Rightarrow> u64 list" where
  "round_spec r ws =
    fold (crossLane_spec r) [0..<32]
      (fold (pairMix_spec r) (filter even [0..<32])
        (injectConstant_spec r ws))"

definition permute_spec :: "QFState \<Rightarrow> QFState" where
  "permute_spec qs = qs\<lparr>state := fold round_spec [0..<24] (state qs)\<rparr>"

subsection \<open>absorb and squeeze\<close>

text \<open>
  The state as bytes, and bytes as a state: \<open>wordOfBytes\<close> puts eight bytes
  back into one word, \<open>bytesToWords\<close> cuts a byte sequence into words.
\<close>

definition wordOfBytes :: "endian \<Rightarrow> u8 list \<Rightarrow> u64" where
  "wordOfBytes e bs =
    fold (\<lambda>j w. w OR push_bit (byteShift e j) (ucast (bs ! j))) [0..<8] 0"

definition bytesToWords :: "endian \<Rightarrow> u8 list \<Rightarrow> u64 list" where
  "bytesToWords e bs =
    map (\<lambda>k. wordOfBytes e (take 8 (drop (8 * k) bs))) [0..<length bs div 8]"

text \<open>
  XOR the bytes \<open>w\<close> into the byte sequence \<open>bs\<close> starting at offset 0: byte
  \<open>j\<close> of \<open>bs\<close> becomes \<open>bs ! j XOR w ! j\<close> for \<open>j < length w\<close>, the bytes from
  \<open>length w\<close> on stay.
\<close>

definition xorAtOffset0 :: "u8 list \<Rightarrow> u8 list \<Rightarrow> u8 list" where
  "xorAtOffset0 bs w =
    map (\<lambda>j. bs ! j XOR w ! j) [0..<length w] @ drop (length w) bs"

text \<open>XOR a window of at most 128 input bytes into the rate window of the state.\<close>

definition xorRate_spec :: "endian \<Rightarrow> u8 list \<Rightarrow> u64 list \<Rightarrow> u64 list" where
  "xorRate_spec e w st = bytesToWords e (xorAtOffset0 (stateBytes e st) w)"

text \<open>The full 128-byte windows of the input, in order, and what is left after them.\<close>

definition fullWindows :: "u8 list \<Rightarrow> u8 list list" where
  "fullWindows data = map (\<lambda>k. take 128 (drop (128 * k) data)) [0..<length data div 128]"

definition trailingWindow :: "u8 list \<Rightarrow> u8 list" where
  "trailingWindow data = drop (128 * (length data div 128)) data"

text \<open>One full window: XOR it in, then permute once.\<close>

definition absorbWindow_spec :: "endian \<Rightarrow> u8 list \<Rightarrow> QFState \<Rightarrow> QFState" where
  "absorbWindow_spec e w qs = qfPermutation (qs\<lparr>state := xorRate_spec e w (state qs)\<rparr>)"

definition absorb_spec :: "endian \<Rightarrow> QFState \<Rightarrow> u8 list \<Rightarrow> QFState" where
  "absorb_spec e qs data =
    (let qs = qs\<lparr>absorbedBytes := absorbedBytes qs + of_nat (length data)\<rparr>;
         qs = fold (absorbWindow_spec e) (fullWindows data) qs
     in qs\<lparr>state := xorRate_spec e (trailingWindow data) (state qs)\<rparr>)"

text \<open>
  Output block \<open>k\<close> (from 0) is the rate window of the state after
  \<open>k + 1\<close> permutations; the digest is the first \<open>outLen\<close> bytes of the
  blocks in order.
\<close>

definition squeezeBlock :: "endian \<Rightarrow> QFState \<Rightarrow> nat \<Rightarrow> u8 list" where
  "squeezeBlock e qs k = take 128 (stateBytes e (state ((qfPermutation ^^ (k + 1)) qs)))"

definition squeeze_spec :: "endian \<Rightarrow> QFState \<Rightarrow> nat \<Rightarrow> u8 list" where
  "squeeze_spec e qs outLen =
    take outLen (concat (map (squeezeBlock e qs) [0..<(outLen + 127) div 128]))"

text \<open>The byte at address \<open>i\<close> of the state array.\<close>

definition stateByte :: "endian \<Rightarrow> u64 list \<Rightarrow> nat \<Rightarrow> u8" where
  "stateByte e st i = ucast (drop_bit (byteShift e i) (st ! (i div 8)))"

subsection \<open>recover\<close>

text \<open>
  Partial repair: a word among the first 8 is suspect when its one-word tag
  under the shadow's key differs from the shadow's tag; every suspect word
  is replaced by the shadow's word, and the suspect words are counted.
\<close>

definition wordSuspect :: "SelfHealContext \<Rightarrow> QFState \<Rightarrow> nat \<Rightarrow> bool" where
  "wordSuspect ctx qs i =
    (miniHash [state qs ! i] 1 (ephemeralKey (shadowCopy ctx))
       \<noteq> partialChecks (shadowCopy ctx) ! i)"

definition partialRepair_spec :: "SelfHealContext \<Rightarrow> QFState \<Rightarrow> QFState" where
  "partialRepair_spec ctx qs =
    qs\<lparr>state := map (\<lambda>i. if i < 8 \<and> wordSuspect ctx qs i
                           then snapState (shadowCopy ctx) ! i else state qs ! i)
                     [0..<length (state qs)]\<rparr>"

definition wordsFixed_spec :: "SelfHealContext \<Rightarrow> QFState \<Rightarrow> int" where
  "wordsFixed_spec ctx qs = int (length (filter (wordSuspect ctx qs) [0..<8]))"

text \<open>
  A ring slot the full revert can use: its key is not the sentinel 0 and
  its own words and length match its own tags.
\<close>

definition slotUsable :: "StateSnapshot \<Rightarrow> bool" where
  "slotUsable snap =
    (ephemeralKey snap \<noteq> 0 \<and> validateSnapshot (snapAsQFState snap) snap)"

section \<open>Auxiliary forms of the loops\<close>

text \<open>The XOR loop over a window and the body of the absorb loop, as folds.\<close>

definition xorWindow :: "endian \<Rightarrow> u8 list \<Rightarrow> u64 list \<Rightarrow> u64 list" where
  "xorWindow e w st = fold (\<lambda>i s. xorByte e s i (w ! i)) [0..<length w] st"

definition absorbWindow_loop :: "endian \<Rightarrow> u8 list \<Rightarrow> QFState \<Rightarrow> QFState" where
  "absorbWindow_loop e w qs = qfPermutation (qs\<lparr>state := xorWindow e w (state qs)\<rparr>)"

text \<open>The slot the revert scan looks at in its step \<open>i\<close>.\<close>

definition ringIndex :: "SelfHealContext \<Rightarrow> nat \<Rightarrow> nat" where
  "ringIndex ctx i =
    nat ((currentIndex ctx - int i + int MAX_SNAPSHOTS) smod int MAX_SNAPSHOTS)"

section \<open>Properties of the permutation's constants\<close>

text \<open>
  C9 (as the table is): the round-constant table has 24 entries, but only 22
  distinct values. Entry 5 equals entry 22 and entry 6 equals entry 20; with
  the two later duplicates removed the remaining 22 entries are pairwise
  distinct. The claim of 24 pairwise-distinct values fails.
\<close>

theorem round_constants_not_distinct: "\<not> distinct ROUND_CONSTANTS"
  by (simp add: ROUND_CONSTANTS_def)

text \<open>
  C9, amended: 24 entries, entries 5/22 and 6/20 coincide, and the 22 entries
  left after dropping positions 20 and 22 are pairwise distinct.
\<close>

theorem round_constants_22_distinct:
  "length ROUND_CONSTANTS = 24
   \<and> ROUND_CONSTANTS ! 5 = ROUND_CONSTANTS ! 22
   \<and> ROUND_CONSTANTS ! 6 = ROUND_CONSTANTS ! 20
   \<and> distinct (take 20 ROUND_CONSTANTS @ [ROUND_CONSTANTS ! 21, ROUND_CONSTANTS ! 23])"
  by (simp add: ROUND_CONSTANTS_def)

text \<open>
  C10 (evaluation of the code): in round 0 at pair index 0 both rotation
  counts of the pair loop are 0, and the second count is 0 again at
  (round, i) = (5, 18), (11, 16), (17, 14) and (23, 12). There
  \<^verbatim>\<open>rotl64\<close> evaluates \<^verbatim>\<open>x >> (64 - 0)\<close>, a shift of a 64-bit value by 64.
\<close>

theorem pair_rotation_count_zero:
  "pairShiftA 0 0 = 0 \<and> pairShiftB 0 0 = 0 \<and> 64 - pairShiftA 0 0 = 64
   \<and> pairShiftB 18 5 = 0 \<and> pairShiftB 16 11 = 0
   \<and> pairShiftB 14 17 = 0 \<and> pairShiftB 12 23 = 0"
  by (simp add: pairShiftA_def pairShiftB_def)

section \<open>The permutation\<close>

lemma rotl64_rotateLeft:
  assumes n: "n < 64"
  shows "rotl64 x n = rotateLeft x n"
  unfolding rotl64_def rotateLeft_def
proof (rule bit_word_eqI)
  fix k assume "k < LENGTH(64)"
  then have k: "k < 64" by simp
  have L: "bit (push_bit n x OR drop_bit (64 - n) x) k
           = ((n \<le> k \<and> bit x (k - n)) \<or> bit x (64 - n + k))"
    using k by (simp add: bit_or_iff bit_push_bit_iff bit_drop_bit_eq)
  have R: "bit (word_rotl n x) k = bit x ((k + (64 - n)) mod 64)"
    using k n by (simp add: bit_word_rotl_iff)
  show "bit (push_bit n x OR drop_bit (64 - n) x) k = bit (word_rotl n x) k"
  proof (cases "n \<le> k")
    case True
    have e: "k + (64 - n) = (k - n) + 64" using True n by arith
    have "(k - n + 64) mod 64 = k - n" using k by simp
    then have i: "(k + (64 - n)) mod 64 = k - n" by (simp only: e)
    have "\<not> 64 - n + k < LENGTH(64)" using True n by simp
    then have "\<not> bit x (64 - n + k)" using bit_imp_le_length [of x "64 - n + k"] by blast
    with L R i True show ?thesis by simp
  next
    case False
    then have "k + (64 - n) < 64" using n by arith
    then have i: "(k + (64 - n)) mod 64 = 64 - n + k" by simp
    with L R False show ?thesis by simp
  qed
qed

lemma rotl64_cross [simp]: "rotl64 x (Suc (k mod 7)) = rotateLeft x (Suc (k mod 7))"
  by (rule rotl64_rotateLeft) arith

lemma rotl64_pairA [simp]: "rotl64 x (pairShiftA i r) = rotateLeft x ((i + r) mod 63)"
  unfolding pairShiftA_def by (rule rotl64_rotateLeft) arith

lemma rotl64_pairB [simp]: "rotl64 x (pairShiftB i r) = rotateLeft x ((3 * i + r) mod 59)"
proof -
  have "rotl64 x (pairShiftB i r) = rotateLeft x (pairShiftB i r)"
    unfolding pairShiftB_def by (rule rotl64_rotateLeft) arith
  then show ?thesis by (simp add: pairShiftB_def mult.commute)
qed

lemma crossLoop_fold:
  "crossLoop i r st = fold (crossLane_spec r) [i..<32] st"
proof (induction i r st rule: crossLoop.induct)
  case (1 i r st)
  show ?case
  proof (cases "i < 32")
    case True
    define st' where
      "st' = st[i := st ! i XOR rotl64 (st ! ((i + 5) mod 32)) (((i + r) mod 7) + 1)]"
    have step: "st' = crossLane_spec r i st"
      by (simp add: st'_def crossLane_spec_def)
    have "crossLoop i r st = crossLoop (i + 1) r st'"
      by (subst crossLoop.simps) (simp only: True if_True st'_def)
    also have "\<dots> = fold (crossLane_spec r) [i + 1..<32] st'"
      using "1.IH" [OF True] by (simp only: st'_def)
    also have "\<dots> = fold (crossLane_spec r) [i..<32] st"
      using True by (simp add: upt_conv_Cons step)
    finally show ?thesis .
  next
    case False
    then show ?thesis by (subst crossLoop.simps) simp
  qed
qed

lemma pairLoop_fold:
  "even i \<Longrightarrow> pairLoop i r st = fold (pairMix_spec r) (filter even [i..<32]) st"
proof (induction i r st rule: pairLoop.induct)
  case (1 i r st)
  show ?case
  proof (cases "i < 32")
    case True
    with \<open>even i\<close> have i30: "Suc i < 32" by presburger
    have l: "filter even [i..<32] = i # filter even [i + 2..<32]"
      using True i30 \<open>even i\<close> by (simp add: upt_conv_Cons)
    define a where "a = rotl64 (st ! i XOR st ! (i + 1)) (pairShiftA i r)"
    define b where "b = rotl64 (st ! (i + 1) XOR a) (pairShiftB i r)"
    define st' where "st' = (st[i := a])[i + 1 := b]"
    have step: "st' = pairMix_spec r i st"
      by (simp add: st'_def a_def b_def pairMix_spec_def Let_def)
    have "pairLoop i r st = pairLoop (i + 2) r st'"
      by (subst pairLoop.simps) (simp only: True if_True Let_def st'_def a_def b_def)
    also have "\<dots> = fold (pairMix_spec r) (filter even [i + 2..<32]) st'"
      using "1.IH" [OF True refl refl refl refl refl refl] \<open>even i\<close>
      by (simp only: st'_def a_def b_def even_add even_numeral simp_thms)
    also have "\<dots> = fold (pairMix_spec r) (filter even [i..<32]) st"
      by (simp only: l step fold_simps)
    finally show ?thesis .
  next
    case False
    then show ?thesis by (subst pairLoop.simps) simp
  qed
qed

lemma roundLoop_fold: "roundLoop r st = fold round_spec [r..<24] st"
proof (induction r st rule: roundLoop.induct)
  case (1 r st)
  show ?case
  proof (cases "r < 24")
    case True
    define s1 where
      "s1 = st[r mod STATE_WORDS := st ! (r mod STATE_WORDS) XOR ROUND_CONSTANTS ! r]"
    define s2 where "s2 = pairLoop 0 r s1"
    define s3 where "s3 = crossLoop 0 r s2"
    have step: "s3 = round_spec r st"
      by (simp only: s3_def s2_def s1_def round_spec_def injectConstant_spec_def
          pairLoop_fold [OF even_zero] crossLoop_fold STATE_WORDS_def)
    have "roundLoop r st = roundLoop (r + 1) s3"
      by (subst roundLoop.simps) (simp only: True if_True Let_def s3_def s2_def s1_def)
    also have "\<dots> = fold round_spec [r + 1..<24] s3"
      using "1.IH" [OF True refl refl refl] by (simp only: s3_def s2_def s1_def)
    also have "\<dots> = fold round_spec [r..<24] st"
      using True by (simp only: upt_conv_Cons [of r 24] step fold_simps o_apply Suc_eq_plus1)
    finally show ?thesis .
  next
    case False
    then show ?thesis by (subst roundLoop.simps) simp
  qed
qed

text \<open>
  C4: for every state, \<^verbatim>\<open>qfPermutation\<close> is the 24-round transformation the
  specification describes: constant injection into word \<open>r mod 32\<close>, the
  sequential pair mix over even \<open>i\<close> (\<open>b\<close> computed from the updated \<open>a\<close>),
  and the in-place cross-lane pass over \<open>i = 0..31\<close> in ascending order.
\<close>

theorem qfPermutation_refines_spec: "qfPermutation qs = permute_spec qs"
  by (simp add: qfPermutation_def permute_spec_def roundLoop_fold)

section \<open>Snapshots\<close>

lemma fillLoop_fields [simp]:
  "snapState (fillLoop i snap) = snapState snap"
  "totalLen (fillLoop i snap) = totalLen snap"
  "ephemeralKey (fillLoop i snap) = ephemeralKey snap"
  "fullChecksum (fillLoop i snap) = fullChecksum snap"
  "length (partialChecks (fillLoop i snap)) = length (partialChecks snap)"
  by (induction i snap rule: fillLoop.induct; subst fillLoop.simps; simp)+

lemma fillLoop_partialChecks:
  "j < length (partialChecks snap) \<Longrightarrow>
   partialChecks (fillLoop i snap) ! j =
     (if i \<le> j \<and> j < 8 then miniHash (drop j (snapState snap)) 1 (ephemeralKey snap)
      else partialChecks snap ! j)"
proof (induction i snap rule: fillLoop.induct)
  case (1 i snap)
  show ?case
  proof (cases "i < 8")
    case True
    have e: "j = i" if "i \<le> j" "\<not> Suc i \<le> j" using that by arith
    from True 1 show ?thesis
      by (subst fillLoop.simps) (auto simp: nth_list_update dest: e)
  next
    case False
    then have "\<not> (i \<le> j \<and> j < 8)" by arith
    with False show ?thesis by (subst fillLoop.simps) (simp only: if_False)
  qed
qed

lemma validateLoop_True:
  "(\<And>j. i \<le> j \<Longrightarrow> j < 8 \<Longrightarrow>
      miniHash (drop j (state qs)) 1 (ephemeralKey snap) = partialChecks snap ! j)
   \<Longrightarrow> validateLoop i qs snap"
proof (induction i qs snap rule: validateLoop.induct)
  case (1 i qs snap)
  show ?case
  proof (cases "i < 8")
    case True
    with 1 show ?thesis
      by (subst validateLoop.simps) (simp add: Let_def)
  next
    case False
    then show ?thesis by (subst validateLoop.simps) simp
  qed
qed

lemma createSnapshot_fields [simp]:
  "snapState (createSnapshot k snap0 qs) = state qs"
  "totalLen (createSnapshot k snap0 qs) = absorbedBytes qs"
  "ephemeralKey (createSnapshot k snap0 qs) = k"
  "length (partialChecks (createSnapshot k snap0 qs)) = length (partialChecks snap0)"
  by (simp_all add: createSnapshot_def fillChecksums_def Let_def)

lemma createSnapshot_fullChecksum:
  "fullChecksum (createSnapshot k snap0 qs) =
     miniHash (map (\<lambda>i. state qs ! i) [0..<8] @ [absorbedBytes qs]) 9 k"
  by (simp add: createSnapshot_def fillChecksums_def Let_def)

lemma createSnapshot_partialChecks:
  "j < 8 \<Longrightarrow> 8 \<le> length (partialChecks snap0) \<Longrightarrow>
   partialChecks (createSnapshot k snap0 qs) ! j = miniHash (drop j (state qs)) 1 k"
  by (simp add: createSnapshot_def fillChecksums_def Let_def fillLoop_partialChecks)

lemma validate_createSnapshot_gen:
  assumes "8 \<le> length (partialChecks snap0)"
  shows "validateSnapshot qs (createSnapshot k snap0 qs)"
proof -
  have "validateLoop 0 qs (createSnapshot k snap0 qs)"
    by (rule validateLoop_True) (simp add: createSnapshot_partialChecks assms)
  then show ?thesis
    by (simp add: validateSnapshot_def Let_def createSnapshot_fullChecksum)
qed

text \<open>
  C8: for every state and every key \<^verbatim>\<open>createSnapshot\<close> may mint, the state
  validates against the snapshot just captured from it. (\<open>snap0\<close>, the
  uninitialised local, only has to have the shape of a snapshot.)
\<close>

theorem validate_after_capture:
  "snapOK snap0 \<Longrightarrow> validateSnapshot qs (createSnapshot ephemeral snap0 qs)"
  by (rule validate_createSnapshot_gen) (simp add: snapOK_def SNAP_WORDS_def)

theorem validate_after_capture_witness:
  "snapOK zeroSnapshot \<and> validateSnapshot initState (createSnapshot 1 zeroSnapshot initState)"
  using validate_after_capture [of zeroSnapshot initState 1]
  by (simp add: snapOK_def zeroSnapshot_def SNAP_WORDS_def)

section \<open>Recovery\<close>

lemma initLoop_fields [simp]:
  "currentIndex (initLoop i ctx) = currentIndex ctx"
  "shadowCopy (initLoop i ctx) = shadowCopy ctx"
  "partialRepairs (initLoop i ctx) = partialRepairs ctx"
  "fullReverts (initLoop i ctx) = fullReverts ctx"
  "totalReinits (initLoop i ctx) = totalReinits ctx"
  "consecutiveAnomalies (initLoop i ctx) = consecutiveAnomalies ctx"
  by (induction i ctx rule: initLoop.induct; subst initLoop.simps; simp)+

lemma initLoop_snapshots_cong:
  "snapshots a = snapshots b \<Longrightarrow> snapshots (initLoop i a) = snapshots (initLoop i b)"
proof (induction i a arbitrary: b rule: initLoop.induct)
  case (1 i a)
  show ?case
  proof (cases "i < MAX_SNAPSHOTS")
    case True
    define clr where "clr c = c\<lparr>snapshots := (snapshots c)
                 [i := (snapshots c ! i)
                         \<lparr>partialChecks := replicate SNAP_WORDS 0,
                          fullChecksum := 0,
                          ephemeralKey := 0\<rparr>]\<rparr>" for c :: SelfHealContext
    have "snapshots (initLoop (i + 1) (clr a)) = snapshots (initLoop (i + 1) (clr b))"
      unfolding clr_def by (rule "1.IH" [OF True]) (simp add: "1.prems")
    moreover have "initLoop i a = initLoop (i + 1) (clr a)" "initLoop i b = initLoop (i + 1) (clr b)"
      using True by (simp_all add: initLoop.simps [of i a] initLoop.simps [of i b] clr_def)
    ultimately show ?thesis by simp
  next
    case False
    with 1 show ?thesis
      by (simp add: initLoop.simps [of i a] initLoop.simps [of i b])
  qed
qed

lemma selfHealInit_fields [simp]:
  "currentIndex (selfHealInit k snap0 ctx qs) = 0"
  "shadowCopy (selfHealInit k snap0 ctx qs) = createSnapshot k snap0 qs"
  "partialRepairs (selfHealInit k snap0 ctx qs) = 0"
  "fullReverts (selfHealInit k snap0 ctx qs) = 0"
  "totalReinits (selfHealInit k snap0 ctx qs) = 0"
  "consecutiveAnomalies (selfHealInit k snap0 ctx qs) = 0"
  by (simp_all add: selfHealInit_def Let_def)

lemma selfHealInit_anomalies:
  "selfHealInit k snap0 (ctx\<lparr>consecutiveAnomalies := c\<rparr>) qs = selfHealInit k snap0 ctx qs"
proof (rule SelfHealContext.equality)
  show "snapshots (selfHealInit k snap0 (ctx\<lparr>consecutiveAnomalies := c\<rparr>) qs)
        = snapshots (selfHealInit k snap0 ctx qs)"
    unfolding selfHealInit_def Let_def by (rule initLoop_snapshots_cong) simp
qed simp_all

lemma qfInit_initState: "qfInit qs = initState"
  by (simp add: qfInit_def initState_def Let_def)

lemma initState_words:
  "state initState =
     [0x6A09E667F3BCC908, 0xBB67AE8584CAA73B, 0x3C6EF372FE94F82B, 0xA54FF53A5F1D36F1]
     @ replicate 28 0"
  "absorbedBytes initState = 0"
  by (simp_all add: initState_def qfInit_def Let_def STATE_WORDS_def numeral_eq_Suc)

lemma healLoop_cong:
  "shadowCopy a = shadowCopy b \<Longrightarrow> healLoop i a s = healLoop i b s"
proof (induction i a s rule: healLoop.induct)
  case (1 i a qs wordsFixed)
  show ?case
  proof (cases "i < 8")
    case True
    with 1 show ?thesis
      by (simp add: healLoop.simps [of i a] healLoop.simps [of i b] Let_def)
  next
    case False
    then show ?thesis
      by (simp add: healLoop.simps [of i a] healLoop.simps [of i b])
  qed
qed

lemma healLoop_anomalies:
  "healLoop i (ctx\<lparr>consecutiveAnomalies := c\<rparr>) s = healLoop i ctx s"
  by (rule healLoop_cong) simp

lemma detectLoop_cong:
  "snapshots a = snapshots b \<Longrightarrow> detectLoop i qs a = detectLoop i qs b"
proof (induction i qs a rule: detectLoop.induct)
  case (1 i qs a)
  show ?case
  proof (cases "i < MAX_SNAPSHOTS")
    case True
    with 1 show ?thesis
      by (simp add: detectLoop.simps [of i qs a] detectLoop.simps [of i qs b])
  next
    case False
    then show ?thesis
      by (simp add: detectLoop.simps [of i qs a] detectLoop.simps [of i qs b])
  qed
qed

lemma selfHealDetect_cong:
  "snapshots a = snapshots b \<Longrightarrow> shadowCopy a = shadowCopy b
   \<Longrightarrow> selfHealDetect qs a = selfHealDetect qs b"
  by (simp add: selfHealDetect_def detectLoop_cong [of a b])

lemma selfHealDetect_anomalies:
  "selfHealDetect qs (ctx\<lparr>consecutiveAnomalies := c\<rparr>) = selfHealDetect qs ctx"
  by (rule selfHealDetect_cong) simp_all

lemma revertScan_cong:
  "snapshots a = snapshots b \<Longrightarrow> currentIndex a = currentIndex b
   \<Longrightarrow> revertScan i a = revertScan i b"
proof (induction i a rule: revertScan.induct)
  case (1 i a)
  show ?case
  proof (cases "i < MAX_SNAPSHOTS")
    case True
    with 1 show ?thesis
      by (simp add: revertScan.simps [of i a] revertScan.simps [of i b] Let_def)
  next
    case False
    then show ?thesis
      by (simp add: revertScan.simps [of i a] revertScan.simps [of i b])
  qed
qed

lemma revertScan_anomalies:
  "revertScan i (ctx\<lparr>consecutiveAnomalies := c\<rparr>) = revertScan i ctx"
  by (rule revertScan_cong) simp_all

lemmas anomalies_simps =
  healLoop_anomalies selfHealDetect_anomalies revertScan_anomalies selfHealInit_anomalies

lemma forceReinit_result:
  "forceReinit k snap0 qs ctx =
     (False, initState, (selfHealInit k snap0 ctx initState)\<lparr>totalReinits := 1\<rparr>)"
proof -
  have "(selfHealInit k snap0 ctx initState)\<lparr>consecutiveAnomalies := 0\<rparr>
        = selfHealInit k snap0 ctx initState"
    by (rule SelfHealContext.equality) simp_all
  then show ?thesis
    by (simp add: forceReinit_def Let_def qfInit_initState)
qed

text \<open>The three exits of \<^verbatim>\<open>selfHealAttemptRecovery\<close>, one equation each.\<close>

lemma recovery_partial:
  assumes "healLoop 0 ctx (qs, 0) = (qs1, w)" "0 < w" "\<not> selfHealDetect qs1 ctx"
  shows "selfHealAttemptRecovery k snap0 qs ctx =
     (True, qs1,
      (selfHealSaveSnapshot k snap0
         (ctx\<lparr>consecutiveAnomalies := consecutiveAnomalies ctx + 1,
               partialRepairs := partialRepairs ctx + 1\<rparr>) qs1)
       \<lparr>consecutiveAnomalies := 0\<rparr>)"
  using assms
  by (simp add: selfHealAttemptRecovery_def Let_def anomalies_simps)

lemma recovery_revert:
  assumes "healLoop 0 ctx (qs, 0) = (qs1, w)" "\<not> (0 < w \<and> \<not> selfHealDetect qs1 ctx)"
    and "revertScan 0 ctx = Some idx"
  shows "selfHealAttemptRecovery k snap0 qs ctx =
     fullRevert k snap0 qs1 (ctx\<lparr>consecutiveAnomalies := consecutiveAnomalies ctx + 1\<rparr>) idx"
  using assms
  by (auto simp add: selfHealAttemptRecovery_def Let_def anomalies_simps)

lemma recovery_reinit:
  assumes "healLoop 0 ctx (qs, 0) = (qs1, w)" "\<not> (0 < w \<and> \<not> selfHealDetect qs1 ctx)"
    and "revertScan 0 ctx = None"
  shows "selfHealAttemptRecovery k snap0 qs ctx =
     (False, initState, (selfHealInit k snap0 ctx initState)\<lparr>totalReinits := 1\<rparr>)"
  using assms
  by (auto simp add: selfHealAttemptRecovery_def Let_def anomalies_simps forceReinit_result)

lemma fullRevert_flag [simp]: "fst (fullRevert k snap0 qs ctx idx) = True"
  by (simp add: fullRevert_def Let_def)

subsection \<open>What the revert scan finds\<close>

lemma revertScan_step:
  "revertScan i ctx =
    (if i < MAX_SNAPSHOTS then
       (if slotUsable (snapshots ctx ! ringIndex ctx i) then Some (ringIndex ctx i)
        else revertScan (i + 1) ctx)
     else None)"
  by (subst revertScan.simps) (simp add: Let_def slotUsable_def ringIndex_def)

lemma revertScan_None_iff:
  "(revertScan i ctx = None)
     = (\<forall>j. i \<le> j \<and> j < MAX_SNAPSHOTS \<longrightarrow> \<not> slotUsable (snapshots ctx ! ringIndex ctx j))"
proof (induction i ctx rule: revertScan.induct)
  case (1 i ctx)
  show ?case
  proof (cases "i < MAX_SNAPSHOTS")
    case True
    note lt = True
    show ?thesis
    proof (cases "slotUsable (snapshots ctx ! ringIndex ctx i)")
      case True
      then show ?thesis
        using lt by (subst revertScan_step) auto
    next
      case False
      have k: "ephemeralKey (snapshots ctx ! ringIndex ctx i) = 0
               \<or> \<not> validateSnapshot (snapAsQFState (snapshots ctx ! ringIndex ctx i))
                       (snapshots ctx ! ringIndex ctx i)"
        using False by (simp add: slotUsable_def)
      have ih: "(revertScan (i + 1) ctx = None)
         = (\<forall>j. i + 1 \<le> j \<and> j < MAX_SNAPSHOTS
              \<longrightarrow> \<not> slotUsable (snapshots ctx ! ringIndex ctx j))"
      proof (cases "ephemeralKey (snapshots ctx ! ringIndex ctx i) = 0")
        case True
        then show ?thesis
          using "1.IH"(1) [OF lt refl refl] by (simp add: ringIndex_def)
      next
        case False
        with k show ?thesis
          using "1.IH"(2) [OF lt refl refl] by (simp add: ringIndex_def)
      qed
      have split: "(\<forall>j. i \<le> j \<and> j < MAX_SNAPSHOTS \<longrightarrow> P j)
                   = (P i \<and> (\<forall>j. i + 1 \<le> j \<and> j < MAX_SNAPSHOTS \<longrightarrow> P j))" for P
      proof
        assume h: "\<forall>j. i \<le> j \<and> j < MAX_SNAPSHOTS \<longrightarrow> P j"
        show "P i \<and> (\<forall>j. i + 1 \<le> j \<and> j < MAX_SNAPSHOTS \<longrightarrow> P j)"
          using h lt by simp
      next
        assume h: "P i \<and> (\<forall>j. i + 1 \<le> j \<and> j < MAX_SNAPSHOTS \<longrightarrow> P j)"
        show "\<forall>j. i \<le> j \<and> j < MAX_SNAPSHOTS \<longrightarrow> P j"
        proof (intro allI impI)
          fix j assume j: "i \<le> j \<and> j < MAX_SNAPSHOTS"
          show "P j"
          proof (cases "j = i")
            case True
            with h show ?thesis by simp
          next
            case False
            with j have "i + 1 \<le> j" by arith
            with h j show ?thesis by blast
          qed
        qed
      qed
      show ?thesis
        using False lt ih by (subst revertScan_step) (simp add: split)
    qed
  next
    case False
    then have "\<not> (i \<le> j \<and> j < MAX_SNAPSHOTS)" for j by arith
    moreover have "revertScan i ctx = None" using False by (subst revertScan_step) simp
    ultimately show ?thesis by blast
  qed
qed

lemma ringIndex_cover:
  assumes "0 \<le> currentIndex ctx" "currentIndex ctx < int MAX_SNAPSHOTS"
  shows "i < MAX_SNAPSHOTS \<Longrightarrow> ringIndex ctx i < MAX_SNAPSHOTS"
    and "j < MAX_SNAPSHOTS \<Longrightarrow> \<exists>i<MAX_SNAPSHOTS. ringIndex ctx i = j"
proof -
  have m: "ringIndex ctx i = nat ((currentIndex ctx - int i + 5) mod 5)" if "i < 5" for i
    using assms that by (simp add: ringIndex_def MAX_SNAPSHOTS_def smod_mod_positive)
  show "ringIndex ctx i < MAX_SNAPSHOTS" if "i < MAX_SNAPSHOTS"
    using m [of i] that by (simp add: MAX_SNAPSHOTS_def)
  show "\<exists>i<MAX_SNAPSHOTS. ringIndex ctx i = j" if "j < MAX_SNAPSHOTS"
  proof -
    define i where "i = nat ((currentIndex ctx - int j) mod 5)"
    have i5: "i < 5" by (simp add: i_def)
    have ii: "int i = (currentIndex ctx - int j) mod 5" by (simp add: i_def)
    have jj: "0 \<le> int j" "int j < 5" using that by (simp_all add: MAX_SNAPSHOTS_def)
    have "(currentIndex ctx - int i + 5) mod 5 = int j"
      unfolding ii using jj by presburger
    then have "ringIndex ctx i = j" using m [OF i5] by simp
    with i5 show ?thesis by (auto simp add: MAX_SNAPSHOTS_def)
  qed
qed

lemma revertScan_None_ring:
  assumes "ctxOK ctx"
  shows "(revertScan 0 ctx = None) = list_all (\<lambda>snap. \<not> slotUsable snap) (snapshots ctx)"
proof -
  have ci: "0 \<le> currentIndex ctx" "currentIndex ctx < int MAX_SNAPSHOTS"
    and len: "length (snapshots ctx) = MAX_SNAPSHOTS"
    using assms by (simp_all add: ctxOK_def)
  have "(revertScan 0 ctx = None)
        = (\<forall>i. i < MAX_SNAPSHOTS \<longrightarrow> \<not> slotUsable (snapshots ctx ! ringIndex ctx i))"
    by (simp add: revertScan_None_iff)
  also have "\<dots> = (\<forall>k. k < MAX_SNAPSHOTS \<longrightarrow> \<not> slotUsable (snapshots ctx ! k))"
    using ringIndex_cover [OF ci] by metis
  also have "\<dots> = list_all (\<lambda>snap. \<not> slotUsable snap) (snapshots ctx)"
    by (simp add: list_all_length len)
  finally show ?thesis .
qed

subsection \<open>Partial repair\<close>

lemma miniHash_one:
  "miniHash data 1 key = byteLoop 0 (data ! 0) (0xcbf29ce484222325 XOR key)"
proof -
  have a: "wordLoop data 1 0 h = wordLoop data 1 1 (byteLoop 0 (data ! 0) h)" for h
    by (subst wordLoop.simps) simp
  have b: "wordLoop data 1 1 h = h" for h
    by (subst wordLoop.simps) simp
  show ?thesis by (simp only: miniHash_def a b)
qed

lemma miniHash_drop:
  "i < length st \<Longrightarrow> miniHash (drop i st) 1 key = miniHash [st ! i] 1 key"
  unfolding miniHash_one by simp

lemma healLoop_spec:
  assumes "8 \<le> length (state qs)"
  shows "healLoop 0 ctx (qs, 0) = (partialRepair_spec ctx qs, wordsFixed_spec ctx qs)"
proof -
  define n where "n = length (state qs)"
  define f where "f i j = (if j < i \<and> wordSuspect ctx qs j
                           then snapState (shadowCopy ctx) ! j else state qs ! j)" for i j :: nat
  define R where "R i = qs\<lparr>state := map (f i) [0..<n]\<rparr>" for i
  define C where "C i = int (length (filter (wordSuspect ctx qs) [0..<i]))" for i
  have n8: "8 \<le> n" using assms by (simp add: n_def)
  have step: "healLoop i ctx (R i, C i) = healLoop (i + 1) ctx (R (i + 1), C (i + 1))"
    if i: "i < 8" for i
  proof -
    have in': "i < n" using i n8 by simp
    have cur: "state (R i) ! i = state qs ! i"
      using in' by (simp add: R_def f_def)
    have h: "miniHash (drop i (state (R i))) 1 (ephemeralKey (shadowCopy ctx))
             = miniHash [state qs ! i] 1 (ephemeralKey (shadowCopy ctx))"
    proof -
      have "i < length (state (R i))" using in' by (simp add: R_def)
      from miniHash_drop [OF this] show ?thesis by (simp only: cur)
    qed
    show ?thesis
    proof (cases "wordSuspect ctx qs i")
      case True
      have "(map (f i) [0..<n])[i := snapState (shadowCopy ctx) ! i] = map (f (i + 1)) [0..<n]"
        using in' True by (intro nth_equalityI) (auto simp add: f_def nth_list_update)
      then have r: "(R i)\<lparr>state := (state (R i))[i := snapState (shadowCopy ctx) ! i]\<rparr>
                    = R (i + 1)"
        by (simp add: R_def)
      have c: "C i + 1 = C (i + 1)" using True by (simp add: C_def)
      have "healLoop i ctx (R i, C i)
            = healLoop (i + 1) ctx
                ((R i)\<lparr>state := (state (R i))[i := snapState (shadowCopy ctx) ! i]\<rparr>, C i + 1)"
        using True i by (subst healLoop.simps) (simp add: Let_def h [unfolded One_nat_def] wordSuspect_def)
      then show ?thesis by (simp only: r c)
    next
      case False
      have "map (f i) [0..<n] = map (f (i + 1)) [0..<n]"
        using False by (intro nth_equalityI) (auto simp add: f_def less_Suc_eq)
      then have r: "R i = R (i + 1)" by (simp add: R_def)
      have c: "C i = C (i + 1)" using False by (simp add: C_def)
      have "healLoop i ctx (R i, C i) = healLoop (i + 1) ctx (R i, C i)"
        using False i by (subst healLoop.simps) (simp add: Let_def h [unfolded One_nat_def] wordSuspect_def)
      then show ?thesis using r c by simp
    qed
  qed
  have stop: "healLoop 8 ctx (R 8, C 8) = (R 8, C 8)"
    by (subst healLoop.simps) simp
  have "map (f 0) [0..<n] = state qs"
    unfolding n_def by (intro nth_equalityI) (simp_all add: f_def)
  then have r0: "R 0 = qs" by (simp add: R_def)
  have c0: "C 0 = 0" by (simp add: C_def)
  have r8: "R 8 = partialRepair_spec ctx qs"
    by (simp add: R_def f_def partialRepair_spec_def n_def)
  have c8: "C 8 = wordsFixed_spec ctx qs"
    by (simp add: C_def wordsFixed_spec_def)
  have "healLoop i ctx (R i, C i) = healLoop 8 ctx (R 8, C 8)" if "i \<le> 8" for i
    using that
  proof (induction rule: inc_induct)
    case base
    show ?case by (rule refl)
  next
    case (step m)
    then show ?case using \<open>\<And>i. i < 8 \<Longrightarrow> healLoop i ctx (R i, C i) = healLoop (i + 1) ctx (R (i + 1), C (i + 1))\<close> [of m]
      by simp
  qed
  from this [of 0] have "healLoop 0 ctx (R 0, C 0) = healLoop 8 ctx (R 8, C 8)" by simp
  then have "healLoop 0 ctx (R 0, C 0) = (R 8, C 8)" by (simp only: stop)
  then show ?thesis
    by (simp only: r0 c0 r8 c8)
qed

lemma no_usable_slot:
  "list_all (\<lambda>snap. \<not> slotUsable snap) xs = (filter slotUsable xs = [])"
  by (simp add: list_all_iff filter_empty_conv)

text \<open>
  C7: for a well-shaped context and a state of 32 words,
  \<^verbatim>\<open>selfHealAttemptRecovery\<close> returns \<open>False\<close> exactly when partial repair did
  not succeed (no suspect word among the first 8, or the repaired state is
  still anomalous) and no ring slot has a non-zero key and validates
  against itself, that is when it reaches the re-initialisation step; then
  the state is the one \<^verbatim>\<open>qfInit\<close> produces (four constants, 28 zero words,
  counter 0), the context is the one \<^verbatim>\<open>selfHealInit\<close> builds from that state
  (with \<open>totalReinits\<close> set to 1 afterwards), \<open>consecutiveAnomalies\<close> is 0 and
  the state validates against the new shadow copy.
\<close>

theorem recovery_false_iff_reinit:
  assumes "ctxOK ctx" "snapOK snap0" "qsOK qs"
  shows
   "(\<not> fst (selfHealAttemptRecovery k snap0 qs ctx))
      = (\<not> (0 < wordsFixed_spec ctx qs
             \<and> \<not> selfHealDetect (partialRepair_spec ctx qs) ctx)
         \<and> filter slotUsable (snapshots ctx) = [])
    \<and> (\<not> fst (selfHealAttemptRecovery k snap0 qs ctx) \<longrightarrow>
         fst (snd (selfHealAttemptRecovery k snap0 qs ctx)) = qfInit qs
       \<and> state (fst (snd (selfHealAttemptRecovery k snap0 qs ctx))) =
           [0x6A09E667F3BCC908, 0xBB67AE8584CAA73B, 0x3C6EF372FE94F82B, 0xA54FF53A5F1D36F1]
           @ replicate 28 0
       \<and> absorbedBytes (fst (snd (selfHealAttemptRecovery k snap0 qs ctx))) = 0
       \<and> snd (snd (selfHealAttemptRecovery k snap0 qs ctx)) =
           (selfHealInit k snap0 ctx (qfInit qs))\<lparr>totalReinits := 1\<rparr>
       \<and> consecutiveAnomalies (snd (snd (selfHealAttemptRecovery k snap0 qs ctx))) = 0
       \<and> validateSnapshot (fst (snd (selfHealAttemptRecovery k snap0 qs ctx)))
           (shadowCopy (snd (snd (selfHealAttemptRecovery k snap0 qs ctx)))))"
proof -
  have h: "healLoop 0 ctx (qs, 0) = (partialRepair_spec ctx qs, wordsFixed_spec ctx qs)"
    using assms(3) by (intro healLoop_spec) (simp add: qsOK_def STATE_WORDS_def)
  have scan: "(revertScan 0 ctx = None) = (filter slotUsable (snapshots ctx) = [])"
    by (simp only: revertScan_None_ring [OF assms(1)] no_usable_slot)
  show ?thesis
  proof (cases "0 < wordsFixed_spec ctx qs \<and> \<not> selfHealDetect (partialRepair_spec ctx qs) ctx")
    case True
    then show ?thesis
      using recovery_partial [OF h, of k snap0] by simp
  next
    case False
    show ?thesis
    proof (cases "revertScan 0 ctx")
      case None
      have v: "validateSnapshot initState (createSnapshot k snap0 initState)"
        using assms(2)
        by (intro validate_createSnapshot_gen) (simp add: snapOK_def SNAP_WORDS_def)
      have e: "filter slotUsable (snapshots ctx) = []" using None scan by simp
      show ?thesis
        using recovery_reinit [OF h False None, of k snap0] False e v
        by (simp add: qfInit_initState initState_words)
    next
      case (Some idx)
      then have e: "filter slotUsable (snapshots ctx) \<noteq> []" using scan by simp
      show ?thesis
        using recovery_revert [OF h False Some, of k snap0] False e by simp
    qed
  qed
qed

section \<open>The sponge\<close>

lemma length_fold_keep:
  "(\<And>i s. length (f i s) = length s) \<Longrightarrow> length (fold f xs s) = length s"
  by (induction xs arbitrary: s) simp_all

lemma length_round_spec: "length (round_spec r ws) = length ws"
proof -
  have c: "length (fold (crossLane_spec r) xs s) = length s" for xs s
    by (rule length_fold_keep) (simp add: crossLane_spec_def)
  have p: "length (fold (pairMix_spec r) xs s) = length s" for xs s
    by (rule length_fold_keep) (simp add: pairMix_spec_def Let_def)
  show ?thesis
    unfolding round_spec_def by (simp only: c p) (simp add: injectConstant_spec_def)
qed

lemma length_roundLoop: "length (roundLoop r st) = length st"
  unfolding roundLoop_fold by (rule length_fold_keep) (rule length_round_spec)

lemma length_qfPermutation [simp]: "length (state (qfPermutation qs)) = length (state qs)"
  by (simp add: qfPermutation_def length_roundLoop)

lemma absorbedBytes_qfPermutation [simp]:
  "absorbedBytes (qfPermutation qs) = absorbedBytes qs"
  by (simp add: qfPermutation_def)

lemma qsOK_qfPermutation [simp]: "qsOK (qfPermutation qs) = qsOK qs"
  by (simp add: qsOK_def)

lemma qsOK_funpow [simp]: "qsOK ((qfPermutation ^^ n) qs) = qsOK qs"
  by (induction n) simp_all

subsection \<open>qfAbsorb\<close>

lemma xorLoop_fold:
  "xorLoop e i n data st = fold (\<lambda>j s. xorByte e s j (data ! j)) [i..<n] st"
proof (induction e i n data st rule: xorLoop.induct)
  case (1 e i n data st)
  show ?case
  proof (cases "i < n")
    case True
    have "xorLoop e i n data st = xorLoop e (i + 1) n data (xorByte e st i (data ! i))"
      by (subst xorLoop.simps) (simp only: True if_True)
    also have "\<dots> = fold (\<lambda>j s. xorByte e s j (data ! j)) [i + 1..<n] (xorByte e st i (data ! i))"
      by (rule "1.IH" [OF True])
    also have "\<dots> = fold (\<lambda>j s. xorByte e s j (data ! j)) [i..<n] st"
      using True by (simp add: upt_conv_Cons)
    finally show ?thesis .
  next
    case False
    then show ?thesis by (subst xorLoop.simps) simp
  qed
qed

lemma xorLoop_window:
  assumes "n \<le> length data"
  shows "xorLoop e 0 n data st = xorWindow e (take n data) st"
proof -
  have len: "length (take n data) = n" using assms by simp
  have "xorLoop e 0 n data st = fold (\<lambda>j s. xorByte e s j (data ! j)) [0..<n] st"
    by (rule xorLoop_fold)
  also have "\<dots> = fold (\<lambda>j s. xorByte e s j (take n data ! j)) [0..<n] st"
    by (rule fold_cong) simp_all
  also have "\<dots> = xorWindow e (take n data) st"
    unfolding xorWindow_def by (simp only: len)
  finally show ?thesis .
qed

lemma xorWindow_Nil [simp]: "xorWindow e [] st = st"
  by (simp add: xorWindow_def)

lemma fullWindows_short: "length data < 128 \<Longrightarrow> fullWindows data = []"
  by (simp add: fullWindows_def)

lemma trailingWindow_short: "length data < 128 \<Longrightarrow> trailingWindow data = data"
  by (simp add: trailingWindow_def)

lemma div_128_step:
  assumes "128 \<le> (n::nat)"
  shows "n div 128 = Suc ((n - 128) div 128)"
  using assms by (simp add: le_div_geq)

lemma fullWindows_step:
  assumes "128 \<le> length data"
  shows "fullWindows data = take 128 data # fullWindows (drop 128 data)"
proof -
  have d: "drop (128 * Suc k) data = drop (128 * k) (drop 128 data)" for k
    by (simp add: add.commute)
  show ?thesis
    unfolding fullWindows_def
    by (simp only: div_128_step [OF assms] map_upt_Suc length_drop d)
      (simp)
qed

lemma trailingWindow_step:
  assumes "128 \<le> length data"
  shows "trailingWindow data = trailingWindow (drop 128 data)"
proof -
  have d: "drop (128 * Suc k) data = drop (128 * k) (drop 128 data)" for k
    by (simp add: add.commute)
  show ?thesis
    unfolding trailingWindow_def
    by (simp only: div_128_step [OF assms] length_drop d)
qed

lemma absorbLoop_windows:
  "absorbLoop e data (length data) (qs, c) =
     ((fold (absorbWindow_loop e) (fullWindows data) qs)
        \<lparr>state := xorWindow e (trailingWindow data)
                    (state (fold (absorbWindow_loop e) (fullWindows data) qs))\<rparr>,
      c + length data div 128)"
proof (induction "length data" arbitrary: data qs c rule: less_induct)
  case less
  consider "length data = 0" | "0 < length data" "length data < 128" | "128 \<le> length data"
    by arith
  then show ?case
  proof cases
    case 1
    then have "data = []" by simp
    then show ?thesis
      by (subst absorbLoop.simps) (simp add: fullWindows_def trailingWindow_def)
  next
    case 2
    then show ?thesis
      by (subst absorbLoop.simps)
        (simp add: fullWindows_short trailingWindow_short rateBytes_def Let_def
          xorLoop_window [of "length data" data, simplified])
  next
    case 3
    define qs' where "qs' = qfPermutation (qs\<lparr>state := xorLoop e 0 128 data (state qs)\<rparr>)"
    have q: "qs' = absorbWindow_loop e (take 128 data) qs"
      using 3 by (simp add: qs'_def absorbWindow_loop_def xorLoop_window)
    have l: "length (drop 128 data) < length data" using 3 by simp
    have pos: "0 < length data" and nl: "\<not> length data < 128" using 3 by arith+
    have "absorbLoop e data (length data) (qs, c)
          = absorbLoop e (drop 128 data) (length (drop 128 data)) (qs', c + 1)"
      by (subst absorbLoop.simps)
        (simp only: pos nl if_True if_False rateBytes_def Let_def qs'_def length_drop
          QFState.simps refl)
    also have "\<dots> =
      ((fold (absorbWindow_loop e) (fullWindows (drop 128 data)) qs')
        \<lparr>state := xorWindow e (trailingWindow (drop 128 data))
                    (state (fold (absorbWindow_loop e) (fullWindows (drop 128 data)) qs'))\<rparr>,
       c + 1 + length (drop 128 data) div 128)"
      by (rule less.hyps [OF l])
    finally show ?thesis
      by (simp only: fullWindows_step [OF 3] trailingWindow_step [OF 3] q
          div_128_step [OF 3] fold_simps length_drop add_Suc_right add_Suc add_0_right
          Suc_eq_plus1 add.assoc add.commute [of 1])
  qed
qed

lemma absorbedBytes_fold_loop [simp]:
  "absorbedBytes (fold (absorbWindow_loop e) ws qs) = absorbedBytes qs"
  by (induction ws arbitrary: qs) (simp_all add: absorbWindow_loop_def)

subsection \<open>The byte meaning of the XOR window\<close>

lemma byteShift_cases:
  obtains a where "a < 8" "byteShift e i = 8 * a"
    "\<forall>j. (byteShift e j = 8 * a) = (j mod 8 = i mod 8)"
proof (cases e)
  case LittleEndian
  show ?thesis
    by (rule that [of "i mod 8"]) (simp_all add: byteShift_def LittleEndian)
next
  case BigEndian
  have "\<forall>j. (7 - j mod 8 = 7 - i mod 8) = (j mod 8 = i mod 8)" by arith
  then show ?thesis
    by (intro that [of "7 - i mod 8"]) (simp_all add: byteShift_def BigEndian)
qed

lemma byte_of_xor_same:
  assumes "a < 8"
  shows "(ucast (drop_bit (8 * a) (w XOR push_bit (8 * a) (ucast d))) :: u8)
         = ucast (drop_bit (8 * a) (w :: u64)) XOR (d :: u8)"
proof (rule bit_word_eqI)
  fix k assume "k < LENGTH(8)"
  then have k: "k < 8" by simp
  have r: "8 * a + k < 64" using assms k by arith
  show "bit (ucast (drop_bit (8 * a) (w XOR push_bit (8 * a) (ucast d))) :: u8) k
        = bit (ucast (drop_bit (8 * a) w) XOR d) k"
    using k r by (simp add: bit_simps)
qed

lemma byte_of_xor_other:
  assumes "a < 8" "b < 8" "a \<noteq> b"
  shows "(ucast (drop_bit (8 * b) (w XOR push_bit (8 * a) (ucast (d :: u8)))) :: u8)
         = ucast (drop_bit (8 * b) (w :: u64))"
proof (rule bit_word_eqI)
  fix k assume "k < LENGTH(8)"
  then have k: "k < 8" by simp
  have r: "8 * b + k < 64" using assms k by arith
  have n: "\<not> (8 * a \<le> 8 * b + k \<and> 8 * b + k - 8 * a < 8)" using assms k by arith
  show "bit (ucast (drop_bit (8 * b) (w XOR push_bit (8 * a) (ucast d))) :: u8) k
        = bit (ucast (drop_bit (8 * b) w) :: u8) k"
    using k r n by (auto simp add: bit_simps dest: bit_imp_le_length)
qed

lemma stateByte_xorByte_same:
  assumes "i div 8 < length st"
  shows "stateByte e (xorByte e st i d) i = stateByte e st i XOR d"
proof -
  obtain a where a: "a < 8" "byteShift e i = 8 * a"
    by (rule byteShift_cases [of e i])
  have "xorByte e st i d ! (i div 8) = st ! (i div 8) XOR push_bit (8 * a) (ucast d)"
    using assms by (simp add: xorByte_def a)
  then show ?thesis
    unfolding stateByte_def by (simp only: a(2) byte_of_xor_same [OF a(1)])
qed

lemma stateByte_xorByte_other:
  assumes "j \<noteq> i"
  shows "stateByte e (xorByte e st i d) j = stateByte e st j"
proof (cases "j div 8 = i div 8 \<and> i div 8 < length st")
  case True
  obtain a where a: "a < 8" "byteShift e i = 8 * a"
    "\<forall>j. (byteShift e j = 8 * a) = (j mod 8 = i mod 8)"
    by (rule byteShift_cases [of e i])
  obtain b where b: "b < 8" "byteShift e j = 8 * b"
    by (rule byteShift_cases [of e j])
  have "j mod 8 \<noteq> i mod 8"
    using True assms by (metis div_mult_mod_eq)
  then have ab: "a \<noteq> b" using a(3) b(2) by auto
  have "xorByte e st i d ! (j div 8) = st ! (j div 8) XOR push_bit (8 * a) (ucast d)"
    using True by (simp add: xorByte_def a)
  then show ?thesis
    unfolding stateByte_def by (simp only: b(2) byte_of_xor_other [OF a(1) b(1) ab])
next
  case False
  then have "xorByte e st i d ! (j div 8) = st ! (j div 8)"
    by (cases "i div 8 < length st") (auto simp add: xorByte_def list_update_beyond)
  then show ?thesis
    by (simp add: stateByte_def)
qed

lemma length_xorByte [simp]: "length (xorByte e st i d) = length st"
  by (simp add: xorByte_def)

lemma xorPrefix_bytes:
  "n \<le> 8 * length st \<Longrightarrow>
   length (fold (\<lambda>i s. xorByte e s i (w ! i)) [0..<n] st) = length st
   \<and> stateByte e (fold (\<lambda>i s. xorByte e s i (w ! i)) [0..<n] st) j
       = (if j < n then stateByte e st j XOR w ! j else stateByte e st j)"
proof (induction n arbitrary: j)
  case 0
  then show ?case by simp
next
  case (Suc n)
  let ?F = "fold (\<lambda>i s. xorByte e s i (w ! i)) [0..<n] st"
  have ih: "length ?F = length st"
    "\<And>j. stateByte e ?F j = (if j < n then stateByte e st j XOR w ! j else stateByte e st j)"
    using Suc.IH Suc.prems by simp_all
  have d: "n div 8 < length ?F" using Suc.prems ih(1) by simp
  show ?case
  proof (cases "j = n")
    case True
    then show ?thesis
      using stateByte_xorByte_same [OF d, of e "w ! n"] ih by simp
  next
    case False
    then show ?thesis
      using stateByte_xorByte_other [OF False, of e ?F "w ! n"] ih by simp
  qed
qed

lemma xorWindow_bytes:
  assumes "length w \<le> 8 * length st"
  shows "stateByte e (xorWindow e w st) j
       = (if j < length w then stateByte e st j XOR w ! j else stateByte e st j)"
  unfolding xorWindow_def using xorPrefix_bytes [OF assms, of e w j] by simp

lemma xorWindow_capacity:
  assumes "length w \<le> 128"
  shows "drop 16 (xorWindow e w st) = drop 16 st"
proof -
  have "n \<le> 128 \<Longrightarrow> drop 16 (fold (\<lambda>i s. xorByte e s i (w ! i)) [0..<n] st) = drop 16 st" for n
  proof (induction n)
    case 0
    then show ?case by simp
  next
    case (Suc n)
    then have "n div 8 < 16" by simp
    then show ?case
      using Suc by (simp add: xorByte_def drop_update_cancel)
  qed
  then show ?thesis using assms by (simp add: xorWindow_def)
qed

lemma stateBytes_nth:
  "i < 8 * length st \<Longrightarrow> stateBytes e st ! i = stateByte e st i"
proof (induction st arbitrary: i)
  case Nil
  then show ?case by simp
next
  case (Cons w st)
  show ?case
  proof (cases "i < 8")
    case True
    then show ?thesis
      by (simp add: stateBytes_def stateByte_def nth_append wordBytes_def)
  next
    case False
    then have i: "i = (i - 8) + 8" by simp
    have "(i - 8) mod 8 = i mod 8" using False by (simp add: le_mod_geq)
    then have s: "byteShift e (i - 8) = byteShift e i"
      by (cases e) (simp_all add: byteShift_def)
    have d: "i div 8 = Suc ((i - 8) div 8)"
      using False by (simp add: le_div_geq)
    have "stateBytes e (w # st) ! i = stateBytes e st ! (i - 8)"
      using False by (simp add: stateBytes_def nth_append wordBytes_def)
    also have "\<dots> = stateByte e st (i - 8)"
      using Cons.prems False by (intro Cons.IH) simp
    also have "\<dots> = stateByte e (w # st) i"
      by (simp add: stateByte_def s d)
    finally show ?thesis .
  qed
qed

lemma windows_partition:
  "concat (fullWindows data) @ trailingWindow data = data
   \<and> map length (fullWindows data) = replicate (length data div 128) 128
   \<and> length (trailingWindow data) = length data mod 128"
proof (induction "length data" arbitrary: data rule: less_induct)
  case less
  show ?case
  proof (cases "length data < 128")
    case True
    then show ?thesis
      by (simp add: fullWindows_short trailingWindow_short)
  next
    case False
    then have g: "128 \<le> length data" by simp
    have l: "length (drop 128 data) < length data" using g by simp
    have m: "length data mod 128 = (length data - 128) mod 128"
      using g by (simp add: le_mod_geq)
    show ?thesis
      using less.hyps [OF l] g
      by (simp add: fullWindows_step [OF g] trailingWindow_step [OF g] div_128_step [OF g] m)
  qed
qed

subsection \<open>qfSqueeze\<close>

lemma length_wordBytes [simp]: "length (wordBytes e w) = 8"
  by (simp add: wordBytes_def)

lemma length_stateBytes [simp]: "length (stateBytes e st) = 8 * length st"
  unfolding stateBytes_def by (induction st) simp_all

lemma length_rate:
  "qsOK qs \<Longrightarrow> length (take 128 (stateBytes e (state qs))) = 128"
  by (simp add: qsOK_def STATE_WORDS_def)

text \<open>The rate window of the state after \<open>k\<close> further permutations.\<close>

lemma squeezeLoop_blocks:
  assumes "qsOK qs"
  shows "squeezeLoop e m out (qs, c) =
     (out @ take m (concat (map (\<lambda>k. take 128 (stateBytes e (state ((qfPermutation ^^ k) qs))))
                              [0..<(m + 127) div 128])),
      (qfPermutation ^^ ((m + 127) div 128 - 1)) qs,
      c + ((m + 127) div 128 - 1))"
  using assms
proof (induction m arbitrary: out qs c rule: less_induct)
  case (less m)
  let ?B = "\<lambda>q k. take 128 (stateBytes e (state ((qfPermutation ^^ k) q)))"
  have zero: "squeezeLoop e 0 out' (q, c') = (out', q, c')" for out' q c'
    by (subst squeezeLoop.simps) simp
  consider "m = 0" | "0 < m" "m \<le> 128" | "128 < m" by arith
  then show ?case
  proof cases
    case 1
    then show ?thesis by (simp add: zero)
  next
    case 2
    then have n1: "(m + 127) div 128 = 1" by arith
    have tc: "(if m < rateBytes then m else rateBytes) = m"
      using 2 by (simp add: rateBytes_def)
    have "squeezeLoop e m out (qs, c)
          = squeezeLoop e 0 (out @ take m (stateBytes e (state qs))) (qs, c)"
      using 2 by (subst squeezeLoop.simps) (simp only: tc Let_def if_True if_False diff_self_eq_0 less_irrefl)
    then show ?thesis
      using 2 by (simp add: zero n1 min_def)
  next
    case 3
    define m' where "m' = m - 128"
    have m': "0 < m'" "m' < m" "m = m' + 128" using 3 by (simp_all add: m'_def)
    have n: "(m + 127) div 128 = Suc ((m' + 127) div 128)"
      unfolding m'(3) by simp
    have np: "0 < (m' + 127) div 128" using m'(1) by arith
    have tc: "(if m < rateBytes then m else rateBytes) = 128"
      using 3 by (simp add: rateBytes_def)
    have pos: "0 < m" using 3 by simp
    have "squeezeLoop e m out (qs, c)
          = squeezeLoop e m' (out @ take 128 (stateBytes e (state qs))) (qfPermutation qs, c + 1)"
      by (subst squeezeLoop.simps) (simp only: pos tc Let_def if_True m'_def [symmetric] m'(1))
    also have "\<dots> =
      ((out @ take 128 (stateBytes e (state qs)))
         @ take m' (concat (map (?B (qfPermutation qs)) [0..<(m' + 127) div 128])),
       (qfPermutation ^^ ((m' + 127) div 128 - 1)) (qfPermutation qs),
       c + 1 + ((m' + 127) div 128 - 1))"
      by (rule less.IH [OF m'(2)]) (simp add: less.prems)
    finally have step: "squeezeLoop e m out (qs, c) =
      ((out @ take 128 (stateBytes e (state qs)))
         @ take m' (concat (map (?B (qfPermutation qs)) [0..<(m' + 127) div 128])),
       (qfPermutation ^^ ((m' + 127) div 128 - 1)) (qfPermutation qs),
       c + 1 + ((m' + 127) div 128 - 1))" .
    have shift: "?B (qfPermutation qs) k = ?B qs (Suc k)" for k
      by (simp add: funpow_swap1)
    have blocks: "map (?B qs) [0..<Suc ((m' + 127) div 128)]
                  = ?B qs 0 # map (?B (qfPermutation qs)) [0..<(m' + 127) div 128]"
      by (simp only: map_upt_Suc shift)
    have len0: "length (?B qs 0) = 128"
      using length_rate [OF less.prems, of e] by simp
    have ta: "take m (xs @ ys) = xs @ take m' ys" if "length xs = 128" for xs ys :: "u8 list"
      using that 3 by (simp add: m'_def)
    have "take m (concat (map (?B qs) [0..<(m + 127) div 128]))
          = take m (?B qs 0 @ concat (map (?B (qfPermutation qs)) [0..<(m' + 127) div 128]))"
      by (simp only: n blocks concat.simps list.map)
    then have tk: "take m (concat (map (?B qs) [0..<(m + 127) div 128]))
              = ?B qs 0 @ take m' (concat (map (?B (qfPermutation qs)) [0..<(m' + 127) div 128]))"
      by (simp only: ta [OF len0])
    obtain j where j: "(m' + 127) div 128 = Suc j"
      using np by (cases "(m' + 127) div 128") simp_all
    have fp: "(qfPermutation ^^ ((m' + 127) div 128 - 1)) (qfPermutation qs)
              = (qfPermutation ^^ ((m + 127) div 128 - 1)) qs"
      by (simp add: n j funpow_swap1)
    have cnt: "c + 1 + ((m' + 127) div 128 - 1) = c + ((m + 127) div 128 - 1)"
      using np by (simp add: n)
    show ?thesis
      by (simp only: step tk fp cnt) simp
  qed
qed

lemma length_concat_blocks:
  "(\<And>k. length (f k) = 128) \<Longrightarrow> length (concat (map f [0..<n])) = 128 * n"
  by (induction n) simp_all

lemma length_squeeze_spec:
  assumes "qsOK qs"
  shows "length (squeeze_spec e qs outLen) = outLen"
proof -
  have b: "length (squeezeBlock e qs k) = 128" for k
    unfolding squeezeBlock_def by (rule length_rate) (simp add: assms)
  have "outLen \<le> 128 * ((outLen + 127) div 128)" by arith
  then show ?thesis
    by (simp add: squeeze_spec_def length_concat_blocks [of "squeezeBlock e qs", OF b])
qed

subsection \<open>Bytes and words\<close>

lemma wordOfBytes_wordBytes: "wordOfBytes e (wordBytes e w) = w"
proof -
  have n: "wordBytes e w ! j = ucast (drop_bit (byteShift e j) w)" if "j < 8" for j
    using that by (simp add: wordBytes_def)
  have u: "wordOfBytes e (wordBytes e w) =
      push_bit (byteShift e 0) (ucast (ucast (drop_bit (byteShift e 0) w) :: u8))
      OR push_bit (byteShift e 1) (ucast (ucast (drop_bit (byteShift e 1) w) :: u8))
      OR push_bit (byteShift e 2) (ucast (ucast (drop_bit (byteShift e 2) w) :: u8))
      OR push_bit (byteShift e 3) (ucast (ucast (drop_bit (byteShift e 3) w) :: u8))
      OR push_bit (byteShift e 4) (ucast (ucast (drop_bit (byteShift e 4) w) :: u8))
      OR push_bit (byteShift e 5) (ucast (ucast (drop_bit (byteShift e 5) w) :: u8))
      OR push_bit (byteShift e 6) (ucast (ucast (drop_bit (byteShift e 6) w) :: u8))
      OR push_bit (byteShift e 7) (ucast (ucast (drop_bit (byteShift e 7) w) :: u8))"
  proof -
    have l8: "[0..<8] = [0, 1, 2, 3, 4, 5, 6, 7::nat]" by code_simp
    show ?thesis
      unfolding wordOfBytes_def l8 by (simp add: n or.assoc)
  qed
  have piece: "bit (push_bit (8 * a) (ucast (ucast (drop_bit (8 * a) w) :: u8)) :: u64) k
               = (k div 8 = a \<and> bit w k)" if "a < 8" "k < 64" for a k
  proof (cases "k div 8 = a")
    case True
    then have "8 * a \<le> k" "k - 8 * a < 8" "k - 8 * a < 64" "8 * a + (k - 8 * a) = k"
      using that by arith+
    then show ?thesis using True that by (auto simp add: bit_simps)
  next
    case False
    then have "\<not> (8 * a \<le> k \<and> k - 8 * a < 8)" by arith
    then show ?thesis using False by (auto simp add: bit_simps)
  qed
  show ?thesis
  proof (rule bit_word_eqI)
    fix k assume "k < LENGTH(64)"
    then have k: "k < 64" by simp
    then have kd: "k div 8 = 0 \<or> k div 8 = 1 \<or> k div 8 = 2 \<or> k div 8 = 3
        \<or> k div 8 = 4 \<or> k div 8 = 5 \<or> k div 8 = 6 \<or> k div 8 = 7"
      by arith
    have q:
        "bit (push_bit 0 (ucast (ucast (drop_bit 0 w) :: u8)) :: u64) k = (k div 8 = 0 \<and> bit w k)"
        "bit (push_bit 8 (ucast (ucast (drop_bit 8 w) :: u8)) :: u64) k = (k div 8 = 1 \<and> bit w k)"
        "bit (push_bit 16 (ucast (ucast (drop_bit 16 w) :: u8)) :: u64) k = (k div 8 = 2 \<and> bit w k)"
        "bit (push_bit 24 (ucast (ucast (drop_bit 24 w) :: u8)) :: u64) k = (k div 8 = 3 \<and> bit w k)"
        "bit (push_bit 32 (ucast (ucast (drop_bit 32 w) :: u8)) :: u64) k = (k div 8 = 4 \<and> bit w k)"
        "bit (push_bit 40 (ucast (ucast (drop_bit 40 w) :: u8)) :: u64) k = (k div 8 = 5 \<and> bit w k)"
        "bit (push_bit 48 (ucast (ucast (drop_bit 48 w) :: u8)) :: u64) k = (k div 8 = 6 \<and> bit w k)"
        "bit (push_bit 56 (ucast (ucast (drop_bit 56 w) :: u8)) :: u64) k = (k div 8 = 7 \<and> bit w k)"
      using k piece [of 0 k] piece [of 1 k] piece [of 2 k] piece [of 3 k]
        piece [of 4 k] piece [of 5 k] piece [of 6 k] piece [of 7 k]
      by simp_all
    show "bit (wordOfBytes e (wordBytes e w)) k = bit w k"
    proof (cases e)
      case LittleEndian
      have s: "byteShift e 0 = 0" "byteShift e 1 = 8" "byteShift e 2 = 16"
        "byteShift e 3 = 24" "byteShift e 4 = 32" "byteShift e 5 = 40"
        "byteShift e 6 = 48" "byteShift e 7 = 56"
        by (simp_all add: byteShift_def LittleEndian)
      have "bit (wordOfBytes e (wordBytes e w)) k =
          ((k div 8 = 0 \<and> bit w k) \<or> (k div 8 = 1 \<and> bit w k) \<or> (k div 8 = 2 \<and> bit w k)
          \<or> (k div 8 = 3 \<and> bit w k) \<or> (k div 8 = 4 \<and> bit w k) \<or> (k div 8 = 5 \<and> bit w k)
          \<or> (k div 8 = 6 \<and> bit w k) \<or> (k div 8 = 7 \<and> bit w k))"
        unfolding u s bit_or_iff q by (rule refl)
      then show ?thesis using kd by blast
    next
      case BigEndian
      have s: "byteShift e 0 = 56" "byteShift e 1 = 48" "byteShift e 2 = 40"
        "byteShift e 3 = 32" "byteShift e 4 = 24" "byteShift e 5 = 16"
        "byteShift e 6 = 8" "byteShift e 7 = 0"
        by (simp_all add: byteShift_def BigEndian)
      have "bit (wordOfBytes e (wordBytes e w)) k =
          ((k div 8 = 7 \<and> bit w k) \<or> (k div 8 = 6 \<and> bit w k) \<or> (k div 8 = 5 \<and> bit w k)
          \<or> (k div 8 = 4 \<and> bit w k) \<or> (k div 8 = 3 \<and> bit w k) \<or> (k div 8 = 2 \<and> bit w k)
          \<or> (k div 8 = 1 \<and> bit w k) \<or> (k div 8 = 0 \<and> bit w k))"
        unfolding u s bit_or_iff q by (rule refl)
      then show ?thesis using kd by blast
    qed
  qed
qed

lemma stateBytes_chunk:
  "k < length st \<Longrightarrow> take 8 (drop (8 * k) (stateBytes e st)) = wordBytes e (st ! k)"
proof (induction st arbitrary: k)
  case Nil
  then show ?case by simp
next
  case (Cons w st)
  show ?case
  proof (cases k)
    case 0
    then show ?thesis by (simp add: stateBytes_def)
  next
    case (Suc k')
    then have "take 8 (drop (8 * k') (stateBytes e st)) = wordBytes e (st ! k')"
      using Cons by simp
    then show ?thesis
      using Suc by (simp add: stateBytes_def)
  qed
qed

lemma bytesToWords_stateBytes: "bytesToWords e (stateBytes e st) = st"
proof -
  have "bytesToWords e (stateBytes e st)
        = map (\<lambda>k. wordOfBytes e (take 8 (drop (8 * k) (stateBytes e st)))) [0..<length st]"
    by (simp add: bytesToWords_def)
  also have "\<dots> = map (\<lambda>k. st ! k) [0..<length st]"
    by (rule map_cong) (simp_all add: stateBytes_chunk wordOfBytes_wordBytes)
  also have "\<dots> = st" by (rule map_nth)
  finally show ?thesis .
qed

lemma length_xorWindow:
  "length w \<le> 8 * length st \<Longrightarrow> length (xorWindow e w st) = length st"
  unfolding xorWindow_def using xorPrefix_bytes [of "length w" st e w 0] by simp

lemma stateBytes_xorWindow:
  assumes "length w \<le> 8 * length st"
  shows "stateBytes e (xorWindow e w st) = xorAtOffset0 (stateBytes e st) w"
proof (rule nth_equalityI)
  show l: "length (stateBytes e (xorWindow e w st)) = length (xorAtOffset0 (stateBytes e st) w)"
    using assms by (simp add: length_xorWindow xorAtOffset0_def)
  fix i assume "i < length (stateBytes e (xorWindow e w st))"
  then have i: "i < 8 * length st" using assms by (simp add: length_xorWindow)
  have "stateBytes e (xorWindow e w st) ! i = stateByte e (xorWindow e w st) i"
    using i assms by (simp add: stateBytes_nth length_xorWindow)
  also have "\<dots> = (if i < length w then stateByte e st i XOR w ! i else stateByte e st i)"
    by (rule xorWindow_bytes [OF assms])
  also have "\<dots> = xorAtOffset0 (stateBytes e st) w ! i"
    using i assms by (simp add: xorAtOffset0_def nth_append stateBytes_nth)
  finally show "stateBytes e (xorWindow e w st) ! i = xorAtOffset0 (stateBytes e st) w ! i" .
qed

lemma xorWindow_spec:
  assumes "length w \<le> 8 * length st"
  shows "xorWindow e w st = xorRate_spec e w st"
proof -
  have "xorWindow e w st = bytesToWords e (stateBytes e (xorWindow e w st))"
    by (simp add: bytesToWords_stateBytes)
  then show ?thesis
    by (simp only: stateBytes_xorWindow [OF assms] xorRate_spec_def)
qed
lemma qsOK_absorbWindow_loop:
  assumes "qsOK qs" "length w \<le> 128"
  shows "qsOK (absorbWindow_loop e w qs)"
    and "absorbWindow_loop e w qs = absorbWindow_spec e w qs"
proof -
  have l: "length w \<le> 8 * length (state qs)"
    using assms by (simp add: qsOK_def STATE_WORDS_def)
  show "qsOK (absorbWindow_loop e w qs)"
    using assms(1) by (simp add: absorbWindow_loop_def qsOK_def length_xorWindow [OF l])
  show "absorbWindow_loop e w qs = absorbWindow_spec e w qs"
    by (simp add: absorbWindow_loop_def absorbWindow_spec_def xorWindow_spec [OF l])
qed

lemma fold_absorbWindow_spec:
  assumes "qsOK qs" "list_all (\<lambda>w. length w \<le> 128) ws"
  shows "fold (absorbWindow_loop e) ws qs = fold (absorbWindow_spec e) ws qs
       \<and> qsOK (fold (absorbWindow_loop e) ws qs)"
  using assms
proof (induction ws arbitrary: qs)
  case Nil
  then show ?case by simp
next
  case (Cons w ws)
  then have w: "length w \<le> 128" and ws: "list_all (\<lambda>w. length w \<le> 128) ws" by simp_all
  note s = qsOK_absorbWindow_loop [OF Cons.prems(1) w, of e]
  show ?case
    using Cons.IH [OF s(1) ws] by (auto simp add: s(2))
qed

lemma fullWindows_bounded: "list_all (\<lambda>w. length w \<le> 128) (fullWindows data)"
  by (simp add: fullWindows_def list_all_iff)

lemma trailingWindow_bounded: "length (trailingWindow data) \<le> 128"
proof -
  have "length (trailingWindow data) = length data mod 128"
    using windows_partition [of data] by simp
  then show ?thesis by simp
qed

text \<open>
  C3: for every state (of 32 words) and every input of length \<open>L\<close>,
  \<^verbatim>\<open>qfAbsorb\<close> adds \<open>L\<close> to the byte counter (a 64-bit addition, also when
  \<open>L = 0\<close>); for each full 128-byte window in turn it XORs the window into
  the first 128 bytes of the state, byte \<open>j\<close> of the window into the state
  byte at address \<open>j\<close>, and permutes once, so \<open>L div 128\<close> times in all; and it
  XORs the trailing partial window into the front of the state bytes in the
  same way without permuting. The windows are the input cut into
  consecutive pieces of 128 bytes, the last piece being what is left.
\<close>

theorem qfAbsorb_windows:
  assumes "qsOK qs"
  shows "qfAbsorb e qs data (length data) = absorb_spec e qs data
   \<and> qfAbsorbPermutations e qs data (length data) = length data div 128
   \<and> absorbedBytes (qfAbsorb e qs data (length data))
       = absorbedBytes qs + of_nat (length data)
   \<and> concat (fullWindows data) @ trailingWindow data = data
   \<and> map length (fullWindows data) = replicate (length data div 128) 128
   \<and> length (trailingWindow data) = length data mod 128"
proof -
  define q0 where "q0 = qs\<lparr>absorbedBytes := absorbedBytes qs + of_nat (length data)\<rparr>"
  define q1 where "q1 = fold (absorbWindow_loop e) (fullWindows data) q0"
  have ok0: "qsOK q0" using assms by (simp add: q0_def qsOK_def)
  have f: "q1 = fold (absorbWindow_spec e) (fullWindows data) q0" and ok1: "qsOK q1"
    using fold_absorbWindow_spec [OF ok0 fullWindows_bounded, of e data]
    by (auto simp add: q1_def)
  have l: "length (trailingWindow data) \<le> 8 * length (state q1)"
    using ok1 trailingWindow_bounded [of data] by (simp add: qsOK_def STATE_WORDS_def)
  have run: "qfAbsorbRun e qs data (length data)
             = (q1\<lparr>state := xorWindow e (trailingWindow data) (state q1)\<rparr>,
                length data div 128)"
    by (simp add: qfAbsorbRun_def absorbLoop_windows q0_def q1_def)
  have spec: "absorb_spec e qs data
             = q1\<lparr>state := xorRate_spec e (trailingWindow data) (state q1)\<rparr>"
    by (simp add: absorb_spec_def Let_def f q0_def)
  have ab: "absorbedBytes q1 = absorbedBytes qs + of_nat (length data)"
    by (simp add: q1_def q0_def)
  show ?thesis
    using windows_partition [of data]
    by (simp add: qfAbsorb_def qfAbsorbPermutations_def run spec xorWindow_spec [OF l] ab)
qed

theorem qfAbsorb_windows_witness:
  "qsOK initState
   \<and> qfAbsorb LittleEndian initState [0x61, 0x62, 0x63] (length [0x61, 0x62, 0x63 :: u8])
       = absorb_spec LittleEndian initState [0x61, 0x62, 0x63]
   \<and> qfAbsorbPermutations LittleEndian initState [0x61, 0x62, 0x63]
        (length [0x61, 0x62, 0x63 :: u8]) = length [0x61, 0x62, 0x63 :: u8] div 128
   \<and> state (qfAbsorb LittleEndian initState [0x61, 0x62, 0x63] (length [0x61, 0x62, 0x63 :: u8]))
       = (state initState)[0 := 0x6A09E667F3BCC908 XOR 0x636261]"
proof -
  have ok: "qsOK initState"
    by (simp add: qsOK_def initState_def qfInit_def Let_def STATE_WORDS_def)
  have s: "state (qfAbsorb LittleEndian initState [0x61, 0x62, 0x63] (length [0x61, 0x62, 0x63 :: u8]))
       = (state initState)[0 := 0x6A09E667F3BCC908 XOR 0x636261]"
    by code_simp
  show ?thesis
    using ok s qfAbsorb_windows [OF ok, of LittleEndian "[0x61, 0x62, 0x63]"] by blast
qed

text \<open>
  C6: for every state (of 32 words) and every \<open>outLen\<close>, \<^verbatim>\<open>qfSqueeze\<close>
  returns: it writes exactly \<open>outLen\<close> bytes and leaves the caller's state as
  it was. Output block \<open>k\<close> is read from the private copy after \<open>k + 1\<close>
  permutations: one before any output, one more between consecutive
  128-byte blocks, \<open>max 1 (ceiling (outLen / 128))\<close> in all.
\<close>

theorem qfSqueeze_blocks:
  assumes "qsOK qs"
  shows "qfSqueeze e qs outLen = (qs, squeeze_spec e qs outLen)
       \<and> length (snd (qfSqueeze e qs outLen)) = outLen
       \<and> qfSqueezePermutations e qs outLen = max 1 ((outLen + 127) div 128)"
proof -
  have ok: "qsOK (qfPermutation qs)" using assms by simp
  have sh: "(\<lambda>k. take 128 (stateBytes e (state ((qfPermutation ^^ k) (qfPermutation qs)))))
            = squeezeBlock e qs"
    by (rule ext) (simp add: squeezeBlock_def funpow_swap1)
  have run: "qfSqueezeRun e qs outLen =
     (squeeze_spec e qs outLen,
      (qfPermutation ^^ ((outLen + 127) div 128 - 1)) (qfPermutation qs),
      1 + ((outLen + 127) div 128 - 1))"
    unfolding qfSqueezeRun_def Let_def squeezeLoop_blocks [OF ok] sh squeeze_spec_def
    by simp
  have cnt: "1 + ((outLen + 127) div 128 - 1) = max 1 ((outLen + 127) div 128)"
    by arith
  show ?thesis
    by (simp add: qfSqueeze_def qfSqueezePermutations_def run cnt
        length_squeeze_spec [OF assms])
qed

theorem qfSqueeze_blocks_witness:
  "qsOK initState
   \<and> qfSqueeze LittleEndian initState 200 = (initState, squeeze_spec LittleEndian initState 200)
   \<and> length (snd (qfSqueeze LittleEndian initState 200)) = 200
   \<and> qfSqueezePermutations LittleEndian initState 200 = 2"
proof -
  have ok: "qsOK initState"
    by (simp add: qsOK_def initState_def qfInit_def Let_def STATE_WORDS_def)
  have c: "max 1 ((200 + 127) div 128) = (2::nat)" by simp
  show ?thesis
    using ok qfSqueeze_blocks [OF ok, of LittleEndian 200] unfolding c by blast
qed

subsection \<open>Full revert\<close>

lemma selfHealSaveSnapshot_fields [simp]:
  "partialRepairs (selfHealSaveSnapshot k snap0 ctx qs) = partialRepairs ctx"
  "fullReverts (selfHealSaveSnapshot k snap0 ctx qs) = fullReverts ctx"
  "totalReinits (selfHealSaveSnapshot k snap0 ctx qs) = totalReinits ctx"
  "consecutiveAnomalies (selfHealSaveSnapshot k snap0 ctx qs) = consecutiveAnomalies ctx"
  "shadowCopy (selfHealSaveSnapshot k snap0 ctx qs) = createSnapshot k snap0 qs"
  "currentIndex (selfHealSaveSnapshot k snap0 ctx qs)
     = (currentIndex ctx + 1) smod int MAX_SNAPSHOTS"
  by (simp_all add: selfHealSaveSnapshot_def Let_def)

lemma fullRevert_fields [simp]:
  "state (fst (snd (fullRevert k snap0 qs ctx idx))) = snapState (snapshots ctx ! idx)"
  "absorbedBytes (fst (snd (fullRevert k snap0 qs ctx idx))) = totalLen (snapshots ctx ! idx)"
  "fullReverts (snd (snd (fullRevert k snap0 qs ctx idx))) = fullReverts ctx + 1"
  "partialRepairs (snd (snd (fullRevert k snap0 qs ctx idx))) = partialRepairs ctx"
  "totalReinits (snd (snd (fullRevert k snap0 qs ctx idx))) = totalReinits ctx"
  by (simp_all add: fullRevert_def Let_def)

lemma ring_index_bound: "nat (x smod int MAX_SNAPSHOTS) < MAX_SNAPSHOTS"
proof -
  have "x smod 5 \<in> {- \<bar>5\<bar> + 1..\<bar>5\<bar> - 1}" by (rule smod_int_range) simp
  then have "x smod 5 \<le> 4" by simp
  then have "nat (x smod 5) < 5" by arith
  then show ?thesis by (simp add: MAX_SNAPSHOTS_def)
qed

lemma revertScan_Some:
  "revertScan i ctx = Some idx \<Longrightarrow>
     idx < MAX_SNAPSHOTS \<and> ephemeralKey (snapshots ctx ! idx) \<noteq> 0
     \<and> validateSnapshot (snapAsQFState (snapshots ctx ! idx)) (snapshots ctx ! idx)"
proof (induction i ctx rule: revertScan.induct)
  case (1 i ctx)
  show ?case
  proof (cases "i < MAX_SNAPSHOTS")
    case True
    with 1 show ?thesis
      using ring_index_bound [of "currentIndex ctx - int i + int MAX_SNAPSHOTS"]
      by (auto simp add: revertScan.simps [of i ctx] Let_def split: if_splits)
  next
    case False
    with 1 show ?thesis by (simp add: revertScan.simps [of i ctx])
  qed
qed

text \<open>
  C1, amended: when \<^verbatim>\<open>selfHealAttemptRecovery\<close> performs a full revert (it
  returns \<open>True\<close> and has incremented \<open>fullReverts\<close>), the revert scan found a
  slot with a non-zero key, all 32 state words are the 32 words stored in
  that slot, and \<open>absorbedBytes\<close> is the slot's \<open>totalLen\<close>.
\<close>

theorem full_revert_restores_whole_snapshot:
  assumes "ctxOK ctx"
    and "fst (selfHealAttemptRecovery k snap0 qs ctx)"
    and "fullReverts (snd (snd (selfHealAttemptRecovery k snap0 qs ctx))) = fullReverts ctx + 1"
  shows "\<exists>idx. revertScan 0 ctx = Some idx \<and> idx < 5
      \<and> ephemeralKey (snapshots ctx ! idx) \<noteq> 0
      \<and> state (fst (snd (selfHealAttemptRecovery k snap0 qs ctx)))
          = snapState (snapshots ctx ! idx)
      \<and> length (state (fst (snd (selfHealAttemptRecovery k snap0 qs ctx)))) = 32
      \<and> absorbedBytes (fst (snd (selfHealAttemptRecovery k snap0 qs ctx)))
          = totalLen (snapshots ctx ! idx)"
proof -
  obtain qs1 w where h: "healLoop 0 ctx (qs, 0) = (qs1, w)"
    by (cases "healLoop 0 ctx (qs, 0)")
  show ?thesis
  proof (cases "0 < w \<and> \<not> selfHealDetect qs1 ctx")
    case True
    then show ?thesis
      using recovery_partial [OF h, of k snap0] assms(3) by simp
  next
    case False
    show ?thesis
    proof (cases "revertScan 0 ctx")
      case None
      then show ?thesis
        using recovery_reinit [OF h False None, of k snap0] assms(2) by simp
    next
      case (Some idx)
      from revertScan_Some [OF Some]
      have i: "idx < 5" and k: "ephemeralKey (snapshots ctx ! idx) \<noteq> 0"
        by (simp_all add: MAX_SNAPSHOTS_def)
      have "snapOK (snapshots ctx ! idx)"
        using assms(1) i by (simp add: ctxOK_def MAX_SNAPSHOTS_def list_all_length)
      then have l: "length (snapState (snapshots ctx ! idx)) = 32"
        by (simp add: snapOK_def SNAP_WORDS_def)
      show ?thesis
        using recovery_revert [OF h False Some, of k snap0] Some i k l by simp
    qed
  qed
qed

subsection \<open>Evaluation at concrete contexts\<close>

lemma drifted_heal: "healLoop 0 freshContext (driftedState, 0) = (driftedState, 0)"
  by code_simp

lemma fresh_scan: "revertScan 0 freshContext = Some 0"
  by code_simp

lemma drifted_anomalous: "selfHealDetect driftedState freshContext"
  by code_simp

lemma fresh_ok: "ctxOK freshContext"
  by code_simp

lemma drifted_recovery:
  "selfHealAttemptRecovery 2 zeroSnapshot driftedState freshContext =
     fullRevert 2 zeroSnapshot driftedState
       (freshContext\<lparr>consecutiveAnomalies := consecutiveAnomalies freshContext + 1\<rparr>) 0"
  by (rule recovery_revert [OF drifted_heal _ fresh_scan]) simp

lemma fresh_slot0_word8: "snapState (snapshots freshContext ! 0) ! 8 = 0"
  by code_simp

lemma drifted_word8: "state driftedState ! 8 = 1"
  by code_simp

text \<open>
  C1 (as stated) fails: \<open>driftedState\<close> is anomalous for \<open>freshContext\<close>, the
  recovery is a full revert, and word 8 of the state is changed by it
  (from 1 to the 0 stored in the snapshot).
\<close>

theorem full_revert_overwrites_word8:
  "selfHealDetect driftedState freshContext
   \<and> fst (selfHealAttemptRecovery 2 zeroSnapshot driftedState freshContext)
   \<and> fullReverts (snd (snd (selfHealAttemptRecovery 2 zeroSnapshot driftedState freshContext)))
       = fullReverts freshContext + 1
   \<and> state (fst (snd (selfHealAttemptRecovery 2 zeroSnapshot driftedState freshContext))) ! 8
       \<noteq> state driftedState ! 8"
  by (simp add: drifted_recovery drifted_anomalous fresh_slot0_word8 drifted_word8)

theorem full_revert_restores_whole_snapshot_witness:
  "ctxOK freshContext
   \<and> fst (selfHealAttemptRecovery 2 zeroSnapshot driftedState freshContext)
   \<and> fullReverts (snd (snd (selfHealAttemptRecovery 2 zeroSnapshot driftedState freshContext)))
       = fullReverts freshContext + 1
   \<and> (\<exists>idx. revertScan 0 freshContext = Some idx \<and> idx < 5
      \<and> ephemeralKey (snapshots freshContext ! idx) \<noteq> 0
      \<and> state (fst (snd (selfHealAttemptRecovery 2 zeroSnapshot driftedState freshContext)))
          = snapState (snapshots freshContext ! idx)
      \<and> length (state (fst (snd (selfHealAttemptRecovery 2 zeroSnapshot driftedState freshContext)))) = 32
      \<and> absorbedBytes (fst (snd (selfHealAttemptRecovery 2 zeroSnapshot driftedState freshContext)))
          = totalLen (snapshots freshContext ! idx))"
proof -
  have a: "fst (selfHealAttemptRecovery 2 zeroSnapshot driftedState freshContext)"
    by (simp add: drifted_recovery)
  have b: "fullReverts (snd (snd (selfHealAttemptRecovery 2 zeroSnapshot driftedState freshContext)))
       = fullReverts freshContext + 1"
    by (simp add: drifted_recovery)
  show ?thesis
    using fresh_ok a b full_revert_restores_whole_snapshot [OF fresh_ok a b] by blast
qed

lemma wiped_heal:
  "healLoop 0 wipedContext (initState, 0) = (\<lparr>state = replicate 32 0, absorbedBytes = 0\<rparr>, 8)"
  by code_simp

lemma wiped_anomalous:
  "selfHealDetect \<lparr>state = replicate 32 0, absorbedBytes = 0\<rparr> wipedContext"
  by code_simp

lemma wiped_scan: "revertScan 0 wipedContext = None"
  by code_simp

lemma wiped_recovery:
  "selfHealAttemptRecovery 1 zeroSnapshot initState wipedContext =
     (False, initState,
      (selfHealInit 1 zeroSnapshot wipedContext initState)\<lparr>totalReinits := 1\<rparr>)"
  by (rule recovery_reinit [OF wiped_heal _ wiped_scan]) (simp add: wiped_anomalous)

subsection \<open>Counters\<close>

lemma sint_succ:
  fixes x :: i32
  assumes "sint x < INT_MAX"
  shows "sint (x + 1) = sint x + 1"
proof -
  have lo: "- (2 ^ 31) \<le> sint x" using sint_ge [of x] by simp
  have hi: "sint x + 1 < 2 ^ 31" using assms by (simp add: INT_MAX_def)
  have "sint (x + 1) = signed_take_bit 31 (sint x + sint (1 :: i32))"
    by (simp add: sint_word_ariths)
  also have "\<dots> = signed_take_bit 31 (sint x + 1)" by simp
  also have "\<dots> = sint x + 1"
    using lo hi by (intro signed_take_bit_int_eq_self) simp_all
  finally show ?thesis .
qed

text \<open>
  C2 (as stated) fails: on a context that has counted two partial repairs,
  one full revert and one re-initialisation, a recovery that ends in
  re-initialisation returns \<open>False\<close> and leaves \<open>partialRepairs = 0\<close>,
  \<open>fullReverts = 0\<close> and \<open>totalReinits = 1\<close>. \<^verbatim>\<open>selfHealInit\<close> overwrites the
  whole context, counters included, before \<^verbatim>\<open>ctx.totalReinits++\<close> runs.
\<close>

theorem reinit_resets_counters:
  "partialRepairs wipedContext = 2 \<and> fullReverts wipedContext = 1
   \<and> totalReinits wipedContext = 1
   \<and> \<not> fst (selfHealAttemptRecovery 1 zeroSnapshot initState wipedContext)
   \<and> partialRepairs (snd (snd (selfHealAttemptRecovery 1 zeroSnapshot initState wipedContext))) = 0
   \<and> fullReverts (snd (snd (selfHealAttemptRecovery 1 zeroSnapshot initState wipedContext))) = 0
   \<and> totalReinits (snd (snd (selfHealAttemptRecovery 1 zeroSnapshot initState wipedContext))) = 1"
proof -
  have before: "partialRepairs wipedContext = 2 \<and> fullReverts wipedContext = 1
      \<and> totalReinits wipedContext = 1"
    by (simp add: wipedContext_def zeroContext_def)
  have after: "\<not> fst (selfHealAttemptRecovery 1 zeroSnapshot initState wipedContext)
   \<and> partialRepairs (snd (snd (selfHealAttemptRecovery 1 zeroSnapshot initState wipedContext))) = 0
   \<and> fullReverts (snd (snd (selfHealAttemptRecovery 1 zeroSnapshot initState wipedContext))) = 0
   \<and> totalReinits (snd (snd (selfHealAttemptRecovery 1 zeroSnapshot initState wipedContext))) = 1"
    by (simp add: wiped_recovery)
  from before after show ?thesis by blast
qed

text \<open>
  C2, amended: on a well-shaped context whose counters are below
  \<open>INT_MAX\<close>, \<^verbatim>\<open>selfHealSaveSnapshot\<close> leaves the three counters as they are
  (\<^verbatim>\<open>selfHealDetect\<close> writes nothing to the context at all), and a recovery
  that succeeds leaves \<open>totalReinits\<close> as it is and increments exactly one
  of \<open>partialRepairs\<close> and \<open>fullReverts\<close> by 1, the counters read as signed
  32-bit values; a recovery that ends in re-initialisation resets
  \<open>partialRepairs\<close> and \<open>fullReverts\<close> to 0.
\<close>

theorem counters_across_operations:
  assumes "ctxOK ctx"
    and "sint (partialRepairs ctx) < INT_MAX"
    and "sint (fullReverts ctx) < INT_MAX"
    and "sint (consecutiveAnomalies ctx) < INT_MAX"
  shows
  "partialRepairs (selfHealSaveSnapshot k snap0 ctx qs) = partialRepairs ctx
   \<and> fullReverts (selfHealSaveSnapshot k snap0 ctx qs) = fullReverts ctx
   \<and> totalReinits (selfHealSaveSnapshot k snap0 ctx qs) = totalReinits ctx
   \<and> (if fst (selfHealAttemptRecovery k snap0 qs ctx)
       then sint (partialRepairs ctx)
              \<le> sint (partialRepairs (snd (snd (selfHealAttemptRecovery k snap0 qs ctx))))
          \<and> sint (fullReverts ctx)
              \<le> sint (fullReverts (snd (snd (selfHealAttemptRecovery k snap0 qs ctx))))
          \<and> sint (partialRepairs (snd (snd (selfHealAttemptRecovery k snap0 qs ctx))))
              + sint (fullReverts (snd (snd (selfHealAttemptRecovery k snap0 qs ctx))))
              = sint (partialRepairs ctx) + sint (fullReverts ctx) + 1
          \<and> totalReinits (snd (snd (selfHealAttemptRecovery k snap0 qs ctx)))
              = totalReinits ctx
       else partialRepairs (snd (snd (selfHealAttemptRecovery k snap0 qs ctx))) = 0
          \<and> fullReverts (snd (snd (selfHealAttemptRecovery k snap0 qs ctx))) = 0)"
proof -
  obtain qs1 w where h: "healLoop 0 ctx (qs, 0) = (qs1, w)"
    by (cases "healLoop 0 ctx (qs, 0)")
  note p = sint_succ [OF assms(2)] and f = sint_succ [OF assms(3)]
  have rec: "if fst (selfHealAttemptRecovery k snap0 qs ctx)
       then sint (partialRepairs ctx)
              \<le> sint (partialRepairs (snd (snd (selfHealAttemptRecovery k snap0 qs ctx))))
          \<and> sint (fullReverts ctx)
              \<le> sint (fullReverts (snd (snd (selfHealAttemptRecovery k snap0 qs ctx))))
          \<and> sint (partialRepairs (snd (snd (selfHealAttemptRecovery k snap0 qs ctx))))
              + sint (fullReverts (snd (snd (selfHealAttemptRecovery k snap0 qs ctx))))
              = sint (partialRepairs ctx) + sint (fullReverts ctx) + 1
          \<and> totalReinits (snd (snd (selfHealAttemptRecovery k snap0 qs ctx)))
              = totalReinits ctx
       else partialRepairs (snd (snd (selfHealAttemptRecovery k snap0 qs ctx))) = 0
          \<and> fullReverts (snd (snd (selfHealAttemptRecovery k snap0 qs ctx))) = 0"
  proof (cases "0 < w \<and> \<not> selfHealDetect qs1 ctx")
    case True
    then show ?thesis
      using recovery_partial [OF h, of k snap0] by (simp add: p)
  next
    case False
    show ?thesis
    proof (cases "revertScan 0 ctx")
      case None
      then show ?thesis
        using recovery_reinit [OF h False None, of k snap0] by simp
    next
      case (Some idx)
      then show ?thesis
        using recovery_revert [OF h False Some, of k snap0] by (simp add: f)
    qed
  qed
  then show ?thesis by simp
qed

theorem counters_across_operations_witness:
  "ctxOK freshContext
   \<and> sint (partialRepairs freshContext) < INT_MAX
   \<and> sint (fullReverts freshContext) < INT_MAX
   \<and> sint (consecutiveAnomalies freshContext) < INT_MAX
   \<and> fst (selfHealAttemptRecovery 2 zeroSnapshot driftedState freshContext)
   \<and> partialRepairs (selfHealSaveSnapshot 2 zeroSnapshot freshContext driftedState)
       = partialRepairs freshContext
   \<and> sint (partialRepairs freshContext)
       \<le> sint (partialRepairs (snd (snd (selfHealAttemptRecovery 2 zeroSnapshot driftedState freshContext))))
   \<and> sint (fullReverts freshContext)
       \<le> sint (fullReverts (snd (snd (selfHealAttemptRecovery 2 zeroSnapshot driftedState freshContext))))
   \<and> sint (partialRepairs (snd (snd (selfHealAttemptRecovery 2 zeroSnapshot driftedState freshContext))))
       + sint (fullReverts (snd (snd (selfHealAttemptRecovery 2 zeroSnapshot driftedState freshContext))))
       = sint (partialRepairs freshContext) + sint (fullReverts freshContext) + 1
   \<and> totalReinits (snd (snd (selfHealAttemptRecovery 2 zeroSnapshot driftedState freshContext)))
       = totalReinits freshContext"
proof -
  have h: "sint (partialRepairs freshContext) < INT_MAX"
    "sint (fullReverts freshContext) < INT_MAX"
    "sint (consecutiveAnomalies freshContext) < INT_MAX"
    by (simp_all add: freshContext_def INT_MAX_def)
  have a: "fst (selfHealAttemptRecovery 2 zeroSnapshot driftedState freshContext)"
    by (simp add: drifted_recovery)
  show ?thesis
    using fresh_ok h a
      counters_across_operations [OF fresh_ok h, of 2 zeroSnapshot driftedState]
    by (simp only: if_True)
qed

theorem recovery_false_iff_reinit_witness:
  "ctxOK wipedContext \<and> snapOK zeroSnapshot \<and> qsOK initState
   \<and> \<not> fst (selfHealAttemptRecovery 1 zeroSnapshot initState wipedContext)
   \<and> \<not> (0 < wordsFixed_spec wipedContext initState
          \<and> \<not> selfHealDetect (partialRepair_spec wipedContext initState) wipedContext)
   \<and> filter slotUsable (snapshots wipedContext) = []
   \<and> fst (snd (selfHealAttemptRecovery 1 zeroSnapshot initState wipedContext)) = qfInit initState
   \<and> absorbedBytes (fst (snd (selfHealAttemptRecovery 1 zeroSnapshot initState wipedContext))) = 0
   \<and> snd (snd (selfHealAttemptRecovery 1 zeroSnapshot initState wipedContext)) =
           (selfHealInit 1 zeroSnapshot wipedContext (qfInit initState))\<lparr>totalReinits := 1\<rparr>
   \<and> consecutiveAnomalies (snd (snd (selfHealAttemptRecovery 1 zeroSnapshot initState wipedContext))) = 0
   \<and> validateSnapshot (fst (snd (selfHealAttemptRecovery 1 zeroSnapshot initState wipedContext)))
           (shadowCopy (snd (snd (selfHealAttemptRecovery 1 zeroSnapshot initState wipedContext))))"
proof -
  have c: "ctxOK wipedContext" by code_simp
  have s: "snapOK zeroSnapshot"
    by (simp add: snapOK_def zeroSnapshot_def SNAP_WORDS_def)
  have q: "qsOK initState"
    by (simp add: qsOK_def initState_def qfInit_def Let_def STATE_WORDS_def)
  have f: "\<not> fst (selfHealAttemptRecovery 1 zeroSnapshot initState wipedContext)"
    by (simp add: wiped_recovery)
  show ?thesis
    using c s q f recovery_false_iff_reinit [OF c s q, of 1] by blast
qed

subsection \<open>A populated slot whose key is 0\<close>

lemma initLoop_nth:
  "j < i \<Longrightarrow> snapshots (initLoop i ctx) ! j = snapshots ctx ! j"
proof (induction i ctx rule: initLoop.induct)
  case (1 i ctx)
  show ?case
  proof (cases "i < MAX_SNAPSHOTS")
    case True
    with 1 show ?thesis
      by (simp add: initLoop.simps [of i ctx])
  next
    case False
    then show ?thesis by (simp add: initLoop.simps [of i ctx])
  qed
qed

lemma selfHealInit_slot0:
  "0 < length (snapshots ctx) \<Longrightarrow>
   snapshots (selfHealInit k snap0 ctx qs) ! 0 = createSnapshot k snap0 qs"
  by (simp add: selfHealInit_def Let_def initLoop_nth)

lemma keyZero_slot0:
  "snapshots keyZeroContext ! 0 = createSnapshot 0 zeroSnapshot initState"
proof -
  have "snapshots (selfHealInit 0 zeroSnapshot zeroContext initState) ! 0
        = createSnapshot 0 zeroSnapshot initState"
    by (rule selfHealInit_slot0) (simp add: zeroContext_def)
  then show ?thesis
    by (simp add: keyZeroContext_def selfHealSaveSnapshot_def Let_def MAX_SNAPSHOTS_def
        signed_modulo_int_def)
qed

lemma keyZero_shadow_stale:
  "\<not> validateSnapshot initState
       (createSnapshot 7 zeroSnapshot (qfAbsorb LittleEndian initState [1] 1))"
  by code_simp

lemma initState_len: "\<not> absorbedBytes initState > MAX_LEN"
  by code_simp

text \<open>
  C5 (evaluation of the code): \<^verbatim>\<open>createSnapshot\<close> can mint the key 0, and the
  ring scan of \<^verbatim>\<open>selfHealDetect\<close> does not skip slots whose key is 0 as
  the scan of \<^verbatim>\<open>selfHealAttemptRecovery\<close> does. In \<open>keyZeroContext\<close> slot 0
  was captured with key 0; the live state fails the shadow copy,
  validates against slot 0 in the ring scan, and is reported healthy.
\<close>

theorem detect_accepts_key_zero_slot:
  "ephemeralKey (snapshots keyZeroContext ! 0) = 0
   \<and> validateSnapshot initState (snapshots keyZeroContext ! 0)
   \<and> \<not> validateSnapshot initState (shadowCopy keyZeroContext)
   \<and> detectLoop 0 initState keyZeroContext
   \<and> \<not> selfHealDetect initState keyZeroContext"
proof -
  have a: "ephemeralKey (snapshots keyZeroContext ! 0) = 0"
    by (simp add: keyZero_slot0)
  have b: "validateSnapshot initState (snapshots keyZeroContext ! 0)"
    unfolding keyZero_slot0
    by (rule validate_createSnapshot_gen) (simp add: zeroSnapshot_def)
  have c: "\<not> validateSnapshot initState (shadowCopy keyZeroContext)"
    using keyZero_shadow_stale by (simp add: keyZeroContext_def)
  have d: "detectLoop 0 initState keyZeroContext"
    using b by (simp add: detectLoop.simps [of 0] MAX_SNAPSHOTS_def)
  have e: "\<not> selfHealDetect initState keyZeroContext"
    using c d initState_len by (simp add: selfHealDetect_def)
  from a b c d e show ?thesis by blast
qed


end
